theory Spec2Isabelle
  imports Main "HOL-Library.Word"
begin

section \<open>Values, signals and the state of the process\<close>

text \<open>
  Abort reasons are arbitrary JavaScript values. The ones that matter here are
  \<open>undefined\<close>, strings, objects compared by identity (an \<open>Event\<close> is one), and error
  objects with a name and a message: \<open>TimeoutError\<close> of \<open>errors.ts\<close> and the
  \<open>AbortError\<close> that \<open>controller.abort()\<close> creates when it is given no reason.
\<close>

datatype val = Undefined | Str string | Obj nat | ErrorObj string string

text \<open>\<open>new TimeoutError(message)\<close>; the message defaults to \<open>The operation timed out.\<close>\<close>

definition TimeoutError :: "string option \<Rightarrow> val" where
  "TimeoutError message =
     ErrorObj ''TimeoutError'' (case message of None \<Rightarrow> ''The operation timed out.'' | Some m \<Rightarrow> m)"

definition DOMAbortError :: val where
  "DOMAbortError = ErrorObj ''AbortError'' ''This operation was aborted''"

text \<open>
  An \<open>AbortSignal\<close> is an object on the heap; its address is its index in \<open>sigs\<close>. An
  \<open>AbortController\<close> is identified with the address of its signal.
\<close>

type_synonym sid = nat

text \<open>
  The duration that \<open>timeout\<close> is given is a JavaScript number. The model covers the
  durations that are non-negative safe integers, the whole numbers from \<open>0\<close> to
  \<open>2\<^sup>5\<^sup>3 - 1\<close>, which a number holds exactly: a 53-bit word, read with \<open>unat\<close> (no
  arithmetic is done on it). Fractional, negative, non-finite and larger durations are
  not covered.
\<close>

type_synonym safe_integer = "53 word"

text \<open>
  The closures that \<open>index.ts\<close> registers as \<open>abort\<close> listeners, with the variables they
  capture. Two closures are the same function object exactly when they come from the same
  call, which the captured fresh controller (or fresh symbol) tells apart.
  \<^item> \<open>AnyOnAbort c signalArray\<close>: \<open>onAbort\<close> of \<open>any\<close>;
  \<^item> \<open>LifecycleListener cleanupId onAbort signal\<close>: \<open>eventListener\<close> of \<open>manageLifecycle\<close>;
    the user's callback \<open>onAbort\<close> is an opaque function named by a number;
  \<^item> \<open>FollowOnAbort c parentSignal\<close>: \<open>onAbort\<close> of \<open>follow\<close>.
\<close>

datatype listener =
    AnyOnAbort sid "sid list"
  | LifecycleListener nat nat sid
  | FollowOnAbort sid sid

record signal =
  aborted :: bool
  reason :: val
  listeners :: "(listener \<times> bool) list"

text \<open>
  The state of the process:
  \<^item> \<open>sigs\<close>: the heap of signals;
  \<^item> \<open>controllers\<close>: the controllers that calling code holds a reference to
    (those it created itself and those \<open>follow\<close> returned);
  \<^item> \<open>neverSignal\<close>: the private field \<open>#neverSignal\<close> of the \<open>Abort\<close> instance;
  \<^item> \<open>timers\<close>: the pending \<open>setTimeout\<close> callbacks of \<open>timeout\<close>, as
    (due time, controller, milliseconds), and \<open>now\<close>, the clock in milliseconds;
  \<^item> \<open>tlisteners\<close>: the listeners \<open>fromEvent\<close> registered on event targets, as
    (target, event name, controller, once);
  \<^item> \<open>registry\<close>: the registrations of the finalization registries of
    \<open>manageLifecycle\<close>, as (target, held value, cleanupId, signal, eventListener);
  \<^item> \<open>nextSymbol\<close>: the supply of fresh symbols;
  \<^item> \<open>calls\<close>: the log of the invocations of user callbacks, (callback, argument).
\<close>

record state =
  sigs :: "signal list"
  controllers :: "sid list"
  neverSignal :: "sid option"
  timers :: "(nat \<times> sid \<times> safe_integer) list"
  now :: nat
  tlisteners :: "(nat \<times> string \<times> sid \<times> bool) list"
  registry :: "(nat \<times> nat \<times> nat \<times> sid \<times> listener) list"
  nextSymbol :: nat
  calls :: "(nat \<times> val) list"

definition init_state :: state where
  "init_state = \<lparr>sigs = [], controllers = [], neverSignal = None, timers = [], now = 0,
     tlisteners = [], registry = [], nextSymbol = 0, calls = []\<rparr>"

section \<open>The platform: controllers, listeners and event delivery\<close>

definition is_aborted :: "state \<Rightarrow> sid \<Rightarrow> bool" where
  "is_aborted s x = (x < length (sigs s) \<and> aborted (sigs s ! x))"

definition reason_of :: "state \<Rightarrow> sid \<Rightarrow> val" where
  "reason_of s x = (if x < length (sigs s) then reason (sigs s ! x) else Undefined)"

definition listeners_of :: "state \<Rightarrow> sid \<Rightarrow> (listener \<times> bool) list" where
  "listeners_of s x = (if x < length (sigs s) then listeners (sigs s ! x) else [])"

definition upd_sig :: "sid \<Rightarrow> (signal \<Rightarrow> signal) \<Rightarrow> state \<Rightarrow> state" where
  "upd_sig x f s = s\<lparr>sigs := (sigs s)[x := f (sigs s ! x)]\<rparr>"

text \<open>\<open>new AbortController()\<close>: a fresh signal, not aborted, without listeners.\<close>

definition new_controller :: "state \<Rightarrow> sid \<times> state" where
  "new_controller s =
     (length (sigs s),
      s\<lparr>sigs := sigs s @ [\<lparr>aborted = False, reason = Undefined, listeners = []\<rparr>]\<rparr>)"

text \<open>
  \<open>signal.addEventListener('abort', l, {once})\<close>: a callback that is already registered
  is not registered again. \<open>signal.removeEventListener('abort', l)\<close> removes it.
\<close>

definition add_listener :: "sid \<Rightarrow> listener \<Rightarrow> bool \<Rightarrow> state \<Rightarrow> state" where
  "add_listener x l once s =
     (if l \<in> fst ` set (listeners_of s x) then s
      else upd_sig x (\<lambda>sg. sg\<lparr>listeners := listeners sg @ [(l, once)]\<rparr>) s)"

definition remove_listener :: "sid \<Rightarrow> listener \<Rightarrow> state \<Rightarrow> state" where
  "remove_listener x l s =
     upd_sig x (\<lambda>sg. sg\<lparr>listeners := filter (\<lambda>e. fst e \<noteq> l) (listeners sg)\<rparr>) s"

text \<open>
  Event delivery is synchronous and nested: \<open>controller.abort(r)\<close> runs the listeners of
  the signal before it returns, and a listener may abort another controller. The pending
  work is a stack of frames: \<open>Invoke x l\<close> is the call of listener \<open>l\<close> for the \<open>abort\<close>
  event of signal \<open>x\<close> (with \<open>this = x\<close>); \<open>AnyCleanup l xs\<close> is the rest of \<open>onAbort\<close> of
  \<open>any\<close> after its \<open>controller.abort\<close> has returned, the call \<open>cleanup()\<close>.
\<close>

datatype frame = Invoke sid listener | AnyCleanup listener "sid list"

text \<open>
  \<open>controller.abort(r)\<close>: nothing if the signal is aborted already; otherwise the signal
  becomes aborted, its reason is \<open>r\<close> (a new \<open>AbortError\<close> if \<open>r\<close> is \<open>undefined\<close>), and
  the listeners registered at that moment are to be called in order of registration.
\<close>

definition signal_abort :: "sid \<Rightarrow> val \<Rightarrow> state \<Rightarrow> frame list \<Rightarrow> state \<times> frame list" where
  "signal_abort c r s fs =
     (if c < length (sigs s) \<and> \<not> aborted (sigs s ! c)
      then (upd_sig c (\<lambda>sg. sg\<lparr>aborted := True,
                                 reason := (if r = Undefined then DOMAbortError else r)\<rparr>) s,
            map (\<lambda>e. Invoke c (fst e)) (listeners (sigs s ! c)) @ fs)
      else (s, fs))"

text \<open>The bodies of the three listeners of \<open>index.ts\<close>.\<close>

fun call_listener :: "sid \<Rightarrow> listener \<Rightarrow> state \<Rightarrow> frame list \<Rightarrow> state \<times> frame list" where
  "call_listener this (AnyOnAbort c xs) s fs =
     signal_abort c (reason_of s this) s (AnyCleanup (AnyOnAbort c xs) xs # fs)"
| "call_listener this (LifecycleListener k cb sg) s fs =
     (s\<lparr>calls := calls s @ [(cb, reason_of s sg)]\<rparr>, fs)"
| "call_listener this (FollowOnAbort c p) s fs =
     signal_abort c (reason_of s p) s fs"

text \<open>
  One step of delivery. A listener that was removed after the event was fired is not
  called; a \<open>once\<close> listener is removed just before it is called.
\<close>

fun step_frame :: "frame \<Rightarrow> state \<Rightarrow> frame list \<Rightarrow> state \<times> frame list" where
  "step_frame (Invoke x l) s fs =
     (case find (\<lambda>e. fst e = l) (listeners_of s x) of
        None \<Rightarrow> (s, fs)
      | Some e \<Rightarrow> call_listener x l (if snd e then remove_listener x l s else s) fs)"
| "step_frame (AnyCleanup l xs) s fs = (fold (\<lambda>x. remove_listener x l) xs s, fs)"

definition unaborted :: "state \<Rightarrow> nat" where
  "unaborted s = length (filter (\<lambda>sg. \<not> aborted sg) (sigs s))"

fun weight :: "frame \<Rightarrow> nat" where
  "weight (Invoke x l) = 2"
| "weight (AnyCleanup l xs) = 1"

lemma filter_update_less:
  "i < length xs \<Longrightarrow> P (xs ! i) \<Longrightarrow> \<not> P y \<Longrightarrow>
   length (filter P (xs[i := y])) < length (filter P xs)"
proof (induction xs arbitrary: i)
  case Nil
  then show ?case by simp
next
  case (Cons x xs)
  show ?case
  proof (cases i)
    case 0
    with Cons.prems show ?thesis by simp
  next
    case (Suc j)
    with Cons.prems Cons.IH [of j] show ?thesis by simp
  qed
qed

lemma filter_update_same:
  "(i < length xs \<Longrightarrow> P y = P (xs ! i)) \<Longrightarrow>
   length (filter P (xs[i := y])) = length (filter P xs)"
proof (induction xs arbitrary: i)
  case Nil
  then show ?case by simp
next
  case (Cons x xs)
  show ?case
  proof (cases i)
    case 0
    with Cons.prems show ?thesis by simp
  next
    case (Suc j)
    with Cons.prems Cons.IH [of j] show ?thesis by simp
  qed
qed

lemma unaborted_remove_listener [simp]: "unaborted (remove_listener x l s) = unaborted s"
  by (simp add: unaborted_def remove_listener_def upd_sig_def filter_update_same)

lemma unaborted_fold_remove [simp]:
  "unaborted (fold (\<lambda>x. remove_listener x l) xs s) = unaborted s"
  by (induction xs arbitrary: s) simp_all

lemma unaborted_calls [simp]: "unaborted (s\<lparr>calls := v\<rparr>) = unaborted s"
  by (simp add: unaborted_def)

lemma signal_abort_measure:
  "signal_abort c r s fs = (s', fs') \<Longrightarrow>
   unaborted s' < unaborted s \<or> (s' = s \<and> fs' = fs)"
  by (auto simp: signal_abort_def unaborted_def upd_sig_def filter_update_less
           split: if_splits)

lemma call_listener_measure:
  "call_listener x l s fs = (s', fs') \<Longrightarrow>
   unaborted s' < unaborted s \<or>
   (unaborted s' = unaborted s \<and> sum_list (map weight fs') \<le> Suc (sum_list (map weight fs)))"
proof (cases l)
  case (AnyOnAbort c xs)
  assume "call_listener x l s fs = (s', fs')"
  with AnyOnAbort show ?thesis
    by (auto dest!: signal_abort_measure)
next
  case (LifecycleListener k cb sg)
  assume "call_listener x l s fs = (s', fs')"
  with LifecycleListener show ?thesis by auto
next
  case (FollowOnAbort c p)
  assume "call_listener x l s fs = (s', fs')"
  with FollowOnAbort show ?thesis
    by (auto dest!: signal_abort_measure)
qed

lemma step_frame_measure:
  "step_frame f s fs = (s', fs') \<Longrightarrow>
   unaborted s' < unaborted s \<or>
   (unaborted s' = unaborted s \<and> sum_list (map weight fs') < sum_list (map weight (f # fs)))"
proof (cases f)
  case (Invoke x l)
  assume "step_frame f s fs = (s', fs')"
  with Invoke show ?thesis
    by (auto split: option.splits if_splits dest!: call_listener_measure)
next
  case (AnyCleanup l xs)
  assume "step_frame f s fs = (s', fs')"
  with AnyCleanup show ?thesis by auto
qed

lemma step_frame_decreases:
  "(step_frame f s fs, (s, f # fs))
     \<in> measures [\<lambda>(s, fs). unaborted s, \<lambda>(s, fs). sum_list (map weight fs)]"
  using step_frame_measure [of f s fs "fst (step_frame f s fs)" "snd (step_frame f s fs)"]
  by (auto simp: case_prod_beta)

text \<open>Delivery runs until no frame is pending. It always ends.\<close>

function exec :: "state \<Rightarrow> frame list \<Rightarrow> state" where
  "exec s [] = s"
| "exec s (f # fs) = (case step_frame f s fs of (s', fs') \<Rightarrow> exec s' fs')"
  by pat_completeness auto
termination
  apply (relation "measures [\<lambda>(s, fs). unaborted s, \<lambda>(s, fs). sum_list (map weight fs)]")
   apply simp
  subgoal for s f fs s' fs'
    using step_frame_decreases [of f s fs] by simp
  done

text \<open>\<open>controller.abort(r)\<close> called from outside any listener.\<close>

definition abort_controller :: "sid \<Rightarrow> val \<Rightarrow> state \<Rightarrow> state" where
  "abort_controller c r s = (case signal_abort c r s [] of (s', fs) \<Rightarrow> exec s' fs)"

section \<open>The operations of \<open>index.ts\<close>\<close>

text \<open>
  The text that the template literal \<open>${milliseconds}\<close> gives for a non-negative safe
  integer: its decimal numeral.
\<close>

definition digit_char :: "nat \<Rightarrow> char" where
  "digit_char k = ''0123456789'' ! k"

fun digits :: "nat \<Rightarrow> string" where
  "digits n =
     (if n < 10 then [digit_char n]
      else digits (n div 10) @ [digit_char (n mod 10)])"

declare digits.simps [simp del]

definition number_toString :: "safe_integer \<Rightarrow> string" where
  "number_toString milliseconds = digits (unat milliseconds)"

text \<open>
  \<open>setTimeout(callback, milliseconds)\<close> of \<open>timeout\<close>, the timer of Node.js: a delay
  that is less than \<open>1\<close> or greater than \<open>2147483647\<close> (\<open>2\<^sup>3\<^sup>1 - 1\<close>) is set to \<open>1\<close>. The
  callback, which captures \<open>controller\<close> and \<open>milliseconds\<close>, is queued to run once the
  clock has advanced by the delay.
\<close>

definition timer_delay :: "safe_integer \<Rightarrow> nat" where
  "timer_delay milliseconds =
     (if milliseconds < 1 \<or> 2147483647 < milliseconds then 1 else unat milliseconds)"

definition setTimeout :: "sid \<Rightarrow> safe_integer \<Rightarrow> state \<Rightarrow> state" where
  "setTimeout controller milliseconds s =
     s\<lparr>timers := timers s @ [(now s + timer_delay milliseconds, controller, milliseconds)]\<rparr>"

definition timeout_callback :: "sid \<Rightarrow> safe_integer \<Rightarrow> state \<Rightarrow> state" where
  "timeout_callback controller milliseconds s =
     abort_controller controller
       (TimeoutError (Some (''Signal timed out after '' @ number_toString milliseconds @ ''ms''))) s"

definition timeout :: "safe_integer \<Rightarrow> state \<Rightarrow> sid \<times> state" where
  "timeout milliseconds s =
     (case new_controller s of (controller, s1) \<Rightarrow>
        (controller, setTimeout controller milliseconds s1))"

text \<open>
  \<open>any\<close>: the loop over \<open>signalArray\<close> returns at the first signal that is aborted
  already, and registers \<open>onAbort\<close> on every signal it passes before.
\<close>

fun any_loop :: "sid \<Rightarrow> listener \<Rightarrow> sid list \<Rightarrow> state \<Rightarrow> state" where
  "any_loop controller onAbort [] s = s"
| "any_loop controller onAbort (signal # rest) s =
     (if is_aborted s signal then abort_controller controller (reason_of s signal) s
      else any_loop controller onAbort rest (add_listener signal onAbort False s))"

definition any :: "sid list \<Rightarrow> state \<Rightarrow> sid \<times> state" where
  "any signalArray s =
     (case new_controller s of (controller, s1) \<Rightarrow>
        (controller, any_loop controller (AnyOnAbort controller signalArray) signalArray s1))"

text \<open>
  \<open>manageLifecycle\<close>. Each call that subscribes creates a symbol \<open>cleanupId\<close>, a closure
  \<open>eventListener\<close> and a finalization registry whose callback captures the three.
\<close>

definition manageLifecycle :: "nat \<Rightarrow> sid \<Rightarrow> nat \<Rightarrow> state \<Rightarrow> state" where
  "manageLifecycle target signal onAbort s =
     (if is_aborted s signal then s\<lparr>calls := calls s @ [(onAbort, reason_of s signal)]\<rparr>
      else
        let cleanupId = nextSymbol s;
            eventListener = LifecycleListener cleanupId onAbort signal;
            s1 = s\<lparr>nextSymbol := Suc cleanupId\<rparr>;
            s2 = add_listener signal eventListener True s1
        in s2\<lparr>registry := registry s2 @ [(target, cleanupId, cleanupId, signal, eventListener)]\<rparr>)"

text \<open>
  The callback of the finalization registry, \<open>(id) => { if (id === cleanupId) ... }\<close>,
  and \<open>collect\<close>, the event that the callbacks registered for a target run after the
  target has been collected. Whether and when that event happens is decided by the garbage
  collector and is not part of the model: the language permits it, and an engine that
  reclaims the registry, which is a local of \<open>manageLifecycle\<close>, before the target never
  runs the callback. The event is one of the moves of the environment, so that what is
  proved for all runs holds whether it happens or not.
\<close>

definition registry_callback :: "nat \<Rightarrow> sid \<Rightarrow> listener \<Rightarrow> nat \<Rightarrow> state \<Rightarrow> state" where
  "registry_callback cleanupId signal eventListener ident s =
     (if ident = cleanupId then remove_listener signal eventListener s else s)"

definition collect :: "nat \<Rightarrow> state \<Rightarrow> state" where
  "collect target s =
     fold (\<lambda>(t, held, cleanupId, signal, eventListener).
             registry_callback cleanupId signal eventListener held)
          (filter (\<lambda>e. fst e = target) (registry s))
          (s\<lparr>registry := filter (\<lambda>e. fst e \<noteq> target) (registry s)\<rparr>)"

definition follow :: "sid \<Rightarrow> state \<Rightarrow> sid \<times> state" where
  "follow parentSignal s =
     (case new_controller s of (controller, s1) \<Rightarrow>
        if is_aborted s1 parentSignal
        then (controller, abort_controller controller (reason_of s1 parentSignal) s1)
        else (controller, add_listener parentSignal (FollowOnAbort controller parentSignal) True s1))"

text \<open>
  \<open>fromEvent\<close> registers \<open>(event) => { controller.abort(event) }\<close> on the target with
  \<open>once: true\<close>. Firing an event on a target calls the listeners registered for that
  name at that moment; a \<open>once\<close> listener is removed before it is called.
\<close>

definition fromEvent :: "nat \<Rightarrow> string \<Rightarrow> state \<Rightarrow> sid \<times> state" where
  "fromEvent target eventName s =
     (case new_controller s of (controller, s1) \<Rightarrow>
        (controller, s1\<lparr>tlisteners := tlisteners s1 @ [(target, eventName, controller, True)]\<rparr>))"

definition fire_listener :: "val \<Rightarrow> nat \<times> string \<times> sid \<times> bool \<Rightarrow> state \<Rightarrow> state" where
  "fire_listener event e s =
     (if e \<in> set (tlisteners s)
      then abort_controller (fst (snd (snd e))) event
             (if snd (snd (snd e)) then s\<lparr>tlisteners := filter (\<lambda>e'. e' \<noteq> e) (tlisteners s)\<rparr> else s)
      else s)"

definition dispatch :: "nat \<Rightarrow> string \<Rightarrow> val \<Rightarrow> state \<Rightarrow> state" where
  "dispatch target eventName event s =
     fold (fire_listener event)
          (filter (\<lambda>e. fst e = target \<and> fst (snd e) = eventName) (tlisteners s)) s"

definition never :: "state \<Rightarrow> sid \<times> state" where
  "never s =
     (case neverSignal s of
        None \<Rightarrow> (case new_controller s of (controller, s1) \<Rightarrow>
                   (controller, s1\<lparr>neverSignal := Some controller\<rparr>))
      | Some signal \<Rightarrow> (signal, s))"

text \<open>
  The clock advances by \<open>t\<close> milliseconds: the timers that are due by then fire, in the
  order of their due times.
\<close>

definition advance :: "nat \<Rightarrow> state \<Rightarrow> state" where
  "advance t s =
     fold (\<lambda>(due, controller, milliseconds). timeout_callback controller milliseconds)
          (sort_key fst (filter (\<lambda>e. fst e \<le> now s + t) (timers s)))
          (s\<lparr>now := now s + t, timers := filter (\<lambda>e. \<not> fst e \<le> now s + t) (timers s)\<rparr>)"

section \<open>What a program can do\<close>

text \<open>
  A program creates controllers of its own and aborts the controllers it holds, calls the
  six operations on signals that exist, and the environment fires events, lets time pass
  and collects objects. A program cannot name a signal that does not exist, nor abort a
  controller it was never given: such a step leaves the state as it is.
\<close>

datatype operation =
    NewController
  | ControllerAbort sid val
  | Timeout safe_integer
  | Any "sid list"
  | ManageLifecycle nat sid nat
  | Follow sid
  | FromEvent nat string
  | Never
  | Dispatch nat string val
  | Advance nat
  | Collect nat

text \<open>The calling code keeps the controller that it was returned.\<close>

definition hold :: "sid \<Rightarrow> state \<Rightarrow> state" where
  "hold c s = s\<lparr>controllers := controllers s @ [c]\<rparr>"

fun step :: "operation \<Rightarrow> state \<Rightarrow> state" where
  "step NewController s = (case new_controller s of (c, s') \<Rightarrow> hold c s')"
| "step (ControllerAbort c r) s =
     (if c \<in> set (controllers s) then abort_controller c r s else s)"
| "step (Timeout ms) s = snd (timeout ms s)"
| "step (Any xs) s = (if \<forall>x \<in> set xs. x < length (sigs s) then snd (any xs s) else s)"
| "step (ManageLifecycle target signal onAbort) s =
     (if signal < length (sigs s) then manageLifecycle target signal onAbort s else s)"
| "step (Follow p) s =
     (if p < length (sigs s)
      then (case follow p s of (c, s') \<Rightarrow> hold c s')
      else s)"
| "step (FromEvent target eventName) s = snd (fromEvent target eventName s)"
| "step Never s = snd (never s)"
| "step (Dispatch target eventName event) s = dispatch target eventName event s"
| "step (Advance t) s = advance t s"
| "step (Collect target) s = collect target s"

definition run :: "operation list \<Rightarrow> state \<Rightarrow> state" where
  "run ops s = fold step ops s"

section \<open>Basic facts\<close>

subsection \<open>Reading a signal after the primitive updates\<close>

lemma length_upd_sig [simp]: "length (sigs (upd_sig x f s)) = length (sigs s)"
  by (simp add: upd_sig_def)

lemma is_aborted_remove_listener [simp]:
  "is_aborted (remove_listener x l s) y = is_aborted s y"
  by (cases "y = x") (auto simp: is_aborted_def remove_listener_def upd_sig_def)

lemma reason_of_remove_listener [simp]:
  "reason_of (remove_listener x l s) y = reason_of s y"
  by (cases "y = x") (simp_all add: reason_of_def remove_listener_def upd_sig_def)

lemma listeners_of_remove_listener:
  "listeners_of (remove_listener x l s) y =
     (if y = x then filter (\<lambda>e. fst e \<noteq> l) (listeners_of s y) else listeners_of s y)"
  by (simp add: listeners_of_def remove_listener_def upd_sig_def)

lemma length_remove_listener [simp]:
  "length (sigs (remove_listener x l s)) = length (sigs s)"
  by (simp add: remove_listener_def)

lemma is_aborted_add_listener [simp]:
  "is_aborted (add_listener x l b s) y = is_aborted s y"
  by (cases "y = x") (auto simp: is_aborted_def add_listener_def upd_sig_def)

lemma reason_of_add_listener [simp]:
  "reason_of (add_listener x l b s) y = reason_of s y"
  by (cases "y = x") (simp_all add: reason_of_def add_listener_def upd_sig_def)

lemma length_add_listener [simp]:
  "length (sigs (add_listener x l b s)) = length (sigs s)"
  by (simp add: add_listener_def)

lemma listeners_of_add_listener:
  "listeners_of (add_listener x l b s) y =
     (if y = x \<and> x < length (sigs s) \<and> l \<notin> fst ` set (listeners_of s x)
      then listeners_of s x @ [(l, b)] else listeners_of s y)"
  by (auto simp: listeners_of_def add_listener_def upd_sig_def)

lemma is_aborted_fold_remove [simp]:
  "is_aborted (fold (\<lambda>x. remove_listener x l) xs s) y = is_aborted s y"
  by (induction xs arbitrary: s) simp_all

lemma reason_of_fold_remove [simp]:
  "reason_of (fold (\<lambda>x. remove_listener x l) xs s) y = reason_of s y"
  by (induction xs arbitrary: s) simp_all

lemma length_fold_remove [simp]:
  "length (sigs (fold (\<lambda>x. remove_listener x l) xs s)) = length (sigs s)"
  by (induction xs arbitrary: s) simp_all

lemma listeners_of_fold_remove:
  "listeners_of (fold (\<lambda>x. remove_listener x l) xs s) y =
     (if y \<in> set xs then filter (\<lambda>e. fst e \<noteq> l) (listeners_of s y) else listeners_of s y)"
proof (induction xs arbitrary: s)
  case Nil
  show ?case by simp
next
  case (Cons x xs)
  show ?case
    by (simp add: Cons.IH listeners_of_remove_listener)
qed

lemma is_aborted_calls [simp]: "is_aborted (s\<lparr>calls := v\<rparr>) y = is_aborted s y"
  by (simp add: is_aborted_def)

lemma reason_of_calls [simp]: "reason_of (s\<lparr>calls := v\<rparr>) y = reason_of s y"
  by (simp add: reason_of_def)

lemma listeners_of_calls [simp]: "listeners_of (s\<lparr>calls := v\<rparr>) y = listeners_of s y"
  by (simp add: listeners_of_def)

text \<open>The value that \<open>controller.abort(r)\<close> stores as the reason.\<close>

definition stored_reason :: "val \<Rightarrow> val" where
  "stored_reason r = (if r = Undefined then DOMAbortError else r)"

lemma stored_reason_defined [simp]: "stored_reason r \<noteq> Undefined"
  by (simp add: stored_reason_def DOMAbortError_def)

lemma stored_reason_idem [simp]: "r \<noteq> Undefined \<Longrightarrow> stored_reason r = r"
  by (simp add: stored_reason_def)

lemma signal_abort_cases:
  assumes "signal_abort c r s fs = (s', fs')"
  obtains (noop) "c \<ge> length (sigs s) \<or> is_aborted s c" "s' = s" "fs' = fs"
  | (fire) "c < length (sigs s)" "\<not> is_aborted s c"
      "s' = upd_sig c (\<lambda>sg. sg\<lparr>aborted := True, reason := stored_reason r\<rparr>) s"
      "fs' = map (\<lambda>e. Invoke c (fst e)) (listeners_of s c) @ fs"
proof (cases "c < length (sigs s) \<and> \<not> aborted (sigs s ! c)")
  case True
  then have a: "c < length (sigs s)" and b: "\<not> is_aborted s c"
    by (simp_all add: is_aborted_def)
  from assms True
  have "s' = upd_sig c (\<lambda>sg. sg\<lparr>aborted := True, reason := stored_reason r\<rparr>) s"
    and "fs' = map (\<lambda>e. Invoke c (fst e)) (listeners_of s c) @ fs"
    by (simp_all add: signal_abort_def listeners_of_def stored_reason_def)
  with a b show ?thesis by (rule fire)
next
  case False
  then have a: "c \<ge> length (sigs s) \<or> is_aborted s c"
    by (auto simp: is_aborted_def)
  from assms False have "s' = s" "fs' = fs"
    by (simp_all add: signal_abort_def)
  with a show ?thesis by (rule noop)
qed

lemma is_aborted_mark:
  "is_aborted (upd_sig c (\<lambda>sg. sg\<lparr>aborted := True, reason := v\<rparr>) s) y =
     (is_aborted s y \<or> (y = c \<and> c < length (sigs s)))"
  by (cases "y = c") (auto simp: is_aborted_def upd_sig_def)

lemma reason_of_mark:
  "reason_of (upd_sig c (\<lambda>sg. sg\<lparr>aborted := True, reason := v\<rparr>) s) y =
     (if y = c \<and> c < length (sigs s) then v else reason_of s y)"
  by (auto simp: reason_of_def upd_sig_def)

lemma listeners_of_mark [simp]:
  "listeners_of (upd_sig c (\<lambda>sg. sg\<lparr>aborted := True, reason := v\<rparr>) s) y = listeners_of s y"
  by (cases "y = c") (auto simp: listeners_of_def upd_sig_def)

subsection \<open>Invariants of event delivery\<close>

lemma exec_invariant:
  assumes "J s fs"
    and "\<And>s f fs s' fs'. J s (f # fs) \<Longrightarrow> step_frame f s fs = (s', fs') \<Longrightarrow> J s' fs'"
  shows "J (exec s fs) []"
  using assms(1)
proof (induction s fs rule: exec.induct)
  case (1 s)
  then show ?case by simp
next
  case (2 s f fs)
  obtain s' fs' where st: "step_frame f s fs = (s', fs')" by (cases "step_frame f s fs")
  from assms(2) [OF "2.prems" st] have "J s' fs'" .
  from "2.IH" [OF st [symmetric] this] st show ?case by simp
qed

text \<open>
  A step of delivery is made of four kinds of elementary changes. An invariant that
  each of them preserves is an invariant of delivery.
\<close>

lemma step_frame_cases:
  assumes "step_frame f s fs = (s', fs')"
  obtains (skip) x l where "f = Invoke x l" "l \<notin> fst ` set (listeners_of s x)" "s' = s" "fs' = fs"
  | (call) x l b where "f = Invoke x l" "(l, b) \<in> set (listeners_of s x)"
      "call_listener x l (if b then remove_listener x l s else s) fs = (s', fs')"
  | (cleanup) l xs where "f = AnyCleanup l xs" "s' = fold (\<lambda>x. remove_listener x l) xs s" "fs' = fs"
proof (cases f)
  case (Invoke x l)
  show ?thesis
  proof (cases "find (\<lambda>e. fst e = l) (listeners_of s x)")
    case None
    then have n: "l \<notin> fst ` set (listeners_of s x)"
      by (auto simp: find_None_iff)
    from assms Invoke None have "s' = s" "fs' = fs" by simp_all
    with Invoke n show ?thesis by (rule skip)
  next
    case (Some e)
    then have e: "e \<in> set (listeners_of s x)" and "fst e = l"
      by (auto simp: find_Some_iff in_set_conv_nth)
    from \<open>fst e = l\<close> have "e = (l, snd e)" by (metis prod.collapse)
    with e have m: "(l, snd e) \<in> set (listeners_of s x)" by simp
    from assms Invoke Some
    have "call_listener x l (if snd e then remove_listener x l s else s) fs = (s', fs')"
      by simp
    with Invoke m show ?thesis by (rule call)
  qed
next
  case (AnyCleanup l xs)
  with assms have "s' = fold (\<lambda>x. remove_listener x l) xs s" "fs' = fs" by auto
  with AnyCleanup show ?thesis by (rule cleanup)
qed

subsection \<open>The outcomes of one step of delivery\<close>

text \<open>
  The controller that a listener aborts, the signal whose reason it reads, and the frame
  it leaves behind for the work after its \<open>controller.abort\<close>.
\<close>

fun target_of :: "listener \<Rightarrow> sid option" where
  "target_of (AnyOnAbort c xs) = Some c"
| "target_of (LifecycleListener k cb sg) = None"
| "target_of (FollowOnAbort c p) = Some c"

fun reads :: "sid \<Rightarrow> listener \<Rightarrow> sid" where
  "reads this (AnyOnAbort c xs) = this"
| "reads this (LifecycleListener k cb sg) = sg"
| "reads this (FollowOnAbort c p) = p"

fun rest_frames :: "listener \<Rightarrow> frame list" where
  "rest_frames (AnyOnAbort c xs) = [AnyCleanup (AnyOnAbort c xs) xs]"
| "rest_frames (LifecycleListener k cb sg) = []"
| "rest_frames (FollowOnAbort c p) = []"

definition mark :: "sid \<Rightarrow> val \<Rightarrow> state \<Rightarrow> state" where
  "mark c v s = upd_sig c (\<lambda>sg. sg\<lparr>aborted := True, reason := v\<rparr>) s"

definition unregister :: "bool \<Rightarrow> sid \<Rightarrow> listener \<Rightarrow> state \<Rightarrow> state" where
  "unregister b x l s = (if b then remove_listener x l s else s)"

lemma is_aborted_mark' [simp]:
  "is_aborted (mark c v s) y = (is_aborted s y \<or> (y = c \<and> c < length (sigs s)))"
  by (simp add: mark_def is_aborted_mark)

lemma reason_of_mark' [simp]:
  "reason_of (mark c v s) y = (if y = c \<and> c < length (sigs s) then v else reason_of s y)"
  by (simp add: mark_def reason_of_mark)

lemma listeners_of_mark' [simp]: "listeners_of (mark c v s) y = listeners_of s y"
  by (simp add: mark_def)

lemma length_mark [simp]: "length (sigs (mark c v s)) = length (sigs s)"
  by (simp add: mark_def)

lemma calls_mark [simp]: "calls (mark c v s) = calls s"
  by (simp add: mark_def upd_sig_def)

lemma is_aborted_unregister [simp]: "is_aborted (unregister b x l s) y = is_aborted s y"
  by (simp add: unregister_def)

lemma reason_of_unregister [simp]: "reason_of (unregister b x l s) y = reason_of s y"
  by (simp add: unregister_def)

lemma length_unregister [simp]: "length (sigs (unregister b x l s)) = length (sigs s)"
  by (simp add: unregister_def)

lemma calls_remove_listener [simp]: "calls (remove_listener x l s) = calls s"
  by (simp add: remove_listener_def upd_sig_def)

lemma calls_fold_remove [simp]: "calls (fold (\<lambda>x. remove_listener x l) xs s) = calls s"
  by (induction xs arbitrary: s) simp_all

lemma calls_unregister [simp]: "calls (unregister b x l s) = calls s"
  by (simp add: unregister_def)

lemma listeners_of_unregister:
  "listeners_of (unregister b x l s) y =
     (if b \<and> y = x then filter (\<lambda>e. fst e \<noteq> l) (listeners_of s y) else listeners_of s y)"
  by (simp add: unregister_def listeners_of_remove_listener)

lemma set_listeners_of_unregister:
  "set (listeners_of (unregister b x l s) y) \<subseteq> set (listeners_of s y)"
  by (auto simp: listeners_of_unregister)

lemma step_frame_outcomes:
  assumes "step_frame f s fs = (s', fs')"
  obtains
    (skip) x l where "f = Invoke x l" "l \<notin> fst ` set (listeners_of s x)" "s' = s" "fs' = fs"
  | (cleanup) l xs where "f = AnyCleanup l xs" "s' = fold (\<lambda>x. remove_listener x l) xs s" "fs' = fs"
  | (log) x k cb sg b where "f = Invoke x (LifecycleListener k cb sg)"
      "(LifecycleListener k cb sg, b) \<in> set (listeners_of s x)"
      "s' = (unregister b x (LifecycleListener k cb sg) s)
              \<lparr>calls := calls s @ [(cb, reason_of s sg)]\<rparr>"
      "fs' = fs"
  | (fire) x l b c where "f = Invoke x l" "(l, b) \<in> set (listeners_of s x)"
      "target_of l = Some c" "c < length (sigs s)" "\<not> is_aborted s c"
      "s' = mark c (stored_reason (reason_of s (reads x l))) (unregister b x l s)"
      "fs' = map (\<lambda>e. Invoke c (fst e)) (listeners_of (unregister b x l s) c) @ rest_frames l @ fs"
  | (dud) x l b c where "f = Invoke x l" "(l, b) \<in> set (listeners_of s x)"
      "target_of l = Some c" "c \<ge> length (sigs s) \<or> is_aborted s c"
      "s' = unregister b x l s" "fs' = rest_frames l @ fs"
  using assms
proof (cases rule: step_frame_cases)
  case (skip x l)
  then show ?thesis by (rule that(1))
next
  case (cleanup l xs)
  then show ?thesis by (rule that(2))
next
  case (call x l b)
  let ?s0 = "unregister b x l s"
  from call(3) have cl: "call_listener x l ?s0 fs = (s', fs')"
    by (simp add: unregister_def)
  show ?thesis
  proof (cases l)
    case (LifecycleListener k cb sg)
    with cl have "s' = ?s0\<lparr>calls := calls s @ [(cb, reason_of s sg)]\<rparr>" "fs' = fs"
      by auto
    with call(1,2) LifecycleListener show ?thesis
      using that(3) [of x k cb sg b] by simp
  next
    case (AnyOnAbort c xs)
    with cl have sa: "signal_abort c (reason_of s x) ?s0 (rest_frames l @ fs) = (s', fs')"
      by simp
    from sa show ?thesis
    proof (cases rule: signal_abort_cases)
      case noop
      with call(1,2) AnyOnAbort show ?thesis
        using that(5) [of x l b c] by simp
    next
      case fire
      with call(1,2) AnyOnAbort show ?thesis
        using that(4) [of x l b c] by (simp add: mark_def)
    qed
  next
    case (FollowOnAbort c p)
    with cl have sa: "signal_abort c (reason_of s p) ?s0 (rest_frames l @ fs) = (s', fs')"
      by simp
    from sa show ?thesis
    proof (cases rule: signal_abort_cases)
      case noop
      with call(1,2) FollowOnAbort show ?thesis
        using that(5) [of x l b c] by simp
    next
      case fire
      with call(1,2) FollowOnAbort show ?thesis
        using that(4) [of x l b c] by (simp add: mark_def)
    qed
  qed
qed

subsection \<open>Effects of one step of delivery\<close>

lemma step_length:
  "step_frame f s fs = (s', fs') \<Longrightarrow> length (sigs s') = length (sigs s)"
  by (erule step_frame_outcomes) (simp_all add: is_aborted_def)

lemma step_stays_aborted:
  "step_frame f s fs = (s', fs') \<Longrightarrow> is_aborted s y \<Longrightarrow>
   is_aborted s' y \<and> reason_of s' y = reason_of s y"
  by (erule step_frame_outcomes) auto

lemma step_listeners_subset:
  "step_frame f s fs = (s', fs') \<Longrightarrow> set (listeners_of s' y) \<subseteq> set (listeners_of s y)"
  by (erule step_frame_outcomes)
     (auto simp: listeners_of_fold_remove listeners_of_unregister split: if_splits)

lemma step_frames_kept:
  "step_frame f s fs = (s', fs') \<Longrightarrow> g \<in> set fs \<Longrightarrow> g \<in> set fs'"
  by (erule step_frame_outcomes) auto

lemma step_newly_aborted:
  assumes "step_frame f s fs = (s', fs')" "is_aborted s' y" "\<not> is_aborted s y"
  obtains x l where "f = Invoke x l" "l \<in> fst ` set (listeners_of s x)"
    "target_of l = Some y" "reason_of s' y = stored_reason (reason_of s (reads x l))"
    "\<And>l'. l' \<in> fst ` set (listeners_of s' y) \<Longrightarrow> Invoke y l' \<in> set fs'"
  using assms(1)
proof (cases rule: step_frame_outcomes)
  case (fire x l b c)
  with assms(2,3) have "y = c" by auto
  have "l \<in> fst ` set (listeners_of s x)" using fire(2) by force
  moreover have "\<And>l'. l' \<in> fst ` set (listeners_of s' y) \<Longrightarrow> Invoke y l' \<in> set fs'"
    using fire \<open>y = c\<close> by auto
  ultimately show ?thesis
    using that [of x l] fire \<open>y = c\<close> by simp
qed (use assms in auto)

lemma step_new_invoke:
  assumes "step_frame f s fs = (s', fs')" "Invoke y l \<in> set fs'" "Invoke y l \<notin> set fs"
  shows "l \<in> fst ` set (listeners_of s' y) \<and> is_aborted s' y \<and> \<not> is_aborted s y"
  using assms(1)
proof (cases rule: step_frame_outcomes)
  case (fire x l0 b c)
  have nr: "Invoke y l \<notin> set (rest_frames l0)" by (cases l0) auto
  with fire assms(2,3) show ?thesis by auto
next
  case (dud x l0 b c)
  have nr: "Invoke y l \<notin> set (rest_frames l0)" by (cases l0) auto
  with dud assms(2,3) show ?thesis by auto
qed (use assms in auto)

lemma step_new_cleanup:
  assumes "step_frame f s fs = (s', fs')" "AnyCleanup l xs \<in> set fs'" "AnyCleanup l xs \<notin> set fs"
  shows "\<exists>x c. f = Invoke x l \<and> l = AnyOnAbort c xs \<and> l \<in> fst ` set (listeners_of s x)"
  using assms(1)
proof (cases rule: step_frame_outcomes)
  case (fire x l0 b c)
  with assms(2,3) have "AnyCleanup l xs \<in> set (rest_frames l0)" by auto
  then have "l = l0 \<and> (\<exists>c. l = AnyOnAbort c xs)" by (cases l0) auto
  moreover have "l0 \<in> fst ` set (listeners_of s x)" using fire(2) by force
  ultimately show ?thesis using fire(1) by auto
next
  case (dud x l0 b c)
  with assms(2,3) have "AnyCleanup l xs \<in> set (rest_frames l0)" by auto
  then have "l = l0 \<and> (\<exists>c. l = AnyOnAbort c xs)" by (cases l0) auto
  moreover have "l0 \<in> fst ` set (listeners_of s x)" using dud(2) by force
  ultimately show ?thesis using dud(1) by auto
qed (use assms in auto)

lemma step_invoke_aborts_target:
  assumes "step_frame (Invoke x l) s fs = (s', fs')" "l \<in> fst ` set (listeners_of s x)"
    "target_of l = Some c" "c < length (sigs s)"
  shows "is_aborted s' c"
  using assms(1)
proof (cases rule: step_frame_outcomes)
  case (skip x' l')
  with assms(2) show ?thesis by simp
qed (use assms in auto)

lemma step_invoke_any_leaves_cleanup:
  assumes "step_frame (Invoke x (AnyOnAbort c xs)) s fs = (s', fs')"
    "AnyOnAbort c xs \<in> fst ` set (listeners_of s x)"
  shows "AnyCleanup (AnyOnAbort c xs) xs \<in> set fs'"
  using assms(1)
proof (cases rule: step_frame_outcomes)
  case (skip x' l')
  with assms(2) show ?thesis by simp
qed auto

lemma step_listener_lost:
  assumes "step_frame f s fs = (s', fs')" "e \<in> set (listeners_of s y)"
    "e \<notin> set (listeners_of s' y)"
  shows "f = Invoke y (fst e) \<or> (\<exists>xs. f = AnyCleanup (fst e) xs \<and> y \<in> set xs)"
  using assms(1)
  by (cases rule: step_frame_outcomes)
     (use assms(2,3) in \<open>auto simp: listeners_of_fold_remove listeners_of_unregister split: if_splits\<close>)

lemma step_cleanup_removes:
  assumes "step_frame (AnyCleanup l xs) s fs = (s', fs')" "y \<in> set xs"
  shows "l \<notin> fst ` set (listeners_of s' y)"
  using assms by (auto simp: listeners_of_fold_remove)

lemma step_calls:
  assumes "step_frame f s fs = (s', fs')"
  shows "calls s' = calls s @
     (case f of
        Invoke x (LifecycleListener k cb sg) \<Rightarrow>
          if LifecycleListener k cb sg \<in> fst ` set (listeners_of s x)
          then [(cb, reason_of s sg)] else []
      | _ \<Rightarrow> [])"
  using assms(1)
proof (cases rule: step_frame_outcomes)
  case (fire x l b c)
  then show ?thesis by (cases l) auto
next
  case (dud x l b c)
  then show ?thesis by (cases l) auto
next
  case (skip x l)
  then show ?thesis by (cases l) auto
next
  case (log x k cb sg b)
  then show ?thesis by force
qed auto

subsection \<open>Well-formed configurations of delivery\<close>

definition frames_ok :: "state \<Rightarrow> frame list \<Rightarrow> bool" where
  "frames_ok s fs \<longleftrightarrow>
     (\<forall>x l. Invoke x l \<in> set fs \<longrightarrow> is_aborted s x) \<and>
     (\<forall>l xs c. AnyCleanup l xs \<in> set fs \<longrightarrow> target_of l = Some c \<longrightarrow> is_aborted s c)"

definition defined_reasons :: "state \<Rightarrow> bool" where
  "defined_reasons s \<longleftrightarrow> (\<forall>x. is_aborted s x \<longrightarrow> reason_of s x \<noteq> Undefined)"

definition valid_targets :: "state \<Rightarrow> bool" where
  "valid_targets s \<longleftrightarrow>
     (\<forall>x l c. l \<in> fst ` set (listeners_of s x) \<longrightarrow> target_of l = Some c \<longrightarrow> c < length (sigs s))"

definition config_ok :: "state \<Rightarrow> frame list \<Rightarrow> bool" where
  "config_ok s fs \<longleftrightarrow> frames_ok s fs \<and> defined_reasons s \<and> valid_targets s"

lemma step_listener_kept:
  "step_frame f s fs = (s', fs') \<Longrightarrow> l \<in> fst ` set (listeners_of s' y) \<Longrightarrow>
   l \<in> fst ` set (listeners_of s y)"
  using step_listeners_subset [of f s fs s' fs' y] by auto

lemma defined_reasons_step:
  assumes "step_frame f s fs = (s', fs')" "defined_reasons s"
  shows "defined_reasons s'"
  unfolding defined_reasons_def
proof (intro allI impI)
  fix x assume a: "is_aborted s' x"
  show "reason_of s' x \<noteq> Undefined"
  proof (cases "is_aborted s x")
    case True
    with assms show ?thesis
      using step_stays_aborted [of f s fs s' fs' x] by (simp add: defined_reasons_def)
  next
    case False
    from assms(1) a False show ?thesis
      by (rule step_newly_aborted) simp
  qed
qed

lemma valid_targets_step:
  assumes "step_frame f s fs = (s', fs')" "valid_targets s"
  shows "valid_targets s'"
  using assms step_length [of f s fs s' fs'] step_listener_kept [of f s fs s' fs']
  unfolding valid_targets_def by metis

lemma frames_ok_step:
  assumes st: "step_frame f s fs = (s', fs')" and ok: "frames_ok s (f # fs)"
    and vt: "valid_targets s"
  shows "frames_ok s' fs'"
  unfolding frames_ok_def
proof (intro conjI allI impI)
  fix x l assume a: "Invoke x l \<in> set fs'"
  show "is_aborted s' x"
  proof (cases "Invoke x l \<in> set fs")
    case True
    with ok have "is_aborted s x" by (auto simp: frames_ok_def)
    with st show ?thesis using step_stays_aborted by blast
  next
    case False
    with st a show ?thesis using step_new_invoke by blast
  qed
next
  fix l xs c assume a: "AnyCleanup l xs \<in> set fs'" and t: "target_of l = Some c"
  show "is_aborted s' c"
  proof (cases "AnyCleanup l xs \<in> set fs")
    case True
    with ok t have "is_aborted s c" by (auto simp: frames_ok_def)
    with st show ?thesis using step_stays_aborted by blast
  next
    case False
    from step_new_cleanup [OF st a False]
    obtain x where f: "f = Invoke x l" and r: "l \<in> fst ` set (listeners_of s x)"
      by blast
    from vt r t have "c < length (sigs s)" unfolding valid_targets_def by blast
    with st f r t show ?thesis using step_invoke_aborts_target by blast
  qed
qed

lemma config_ok_step:
  "step_frame f s fs = (s', fs') \<Longrightarrow> config_ok s (f # fs) \<Longrightarrow> config_ok s' fs'"
  by (simp add: config_ok_def frames_ok_step defined_reasons_step valid_targets_step)

subsection \<open>A controller that only one listener can abort\<close>

text \<open>
  \<open>targets_only c l0 S\<close>: the only listener that aborts \<open>c\<close> is \<open>l0\<close>, and it is registered
  on signals of \<open>S\<close> only. \<open>armed\<close>: while \<open>c\<close> is not aborted, \<open>l0\<close> is registered on
  every signal of \<open>S\<close>, and is waiting to be called for those that are aborted.
  \<open>mirrored\<close>: once \<open>c\<close> is aborted, its reason is that of an aborted signal of \<open>S\<close>.
\<close>

definition targets_only :: "sid \<Rightarrow> listener \<Rightarrow> sid set \<Rightarrow> state \<Rightarrow> frame list \<Rightarrow> bool" where
  "targets_only c l0 S s fs \<longleftrightarrow>
     (\<forall>x l. l \<in> fst ` set (listeners_of s x) \<longrightarrow> target_of l = Some c \<longrightarrow> l = l0 \<and> x \<in> S) \<and>
     (\<forall>x l. Invoke x l \<in> set fs \<longrightarrow> target_of l = Some c \<longrightarrow> l = l0 \<and> x \<in> S)"

definition armed :: "sid \<Rightarrow> listener \<Rightarrow> sid set \<Rightarrow> state \<Rightarrow> frame list \<Rightarrow> bool" where
  "armed c l0 S s fs \<longleftrightarrow>
     (\<not> is_aborted s c \<longrightarrow>
        (\<forall>x \<in> S. l0 \<in> fst ` set (listeners_of s x) \<and> (is_aborted s x \<longrightarrow> Invoke x l0 \<in> set fs)))"

definition mirrored :: "sid \<Rightarrow> sid set \<Rightarrow> state \<Rightarrow> bool" where
  "mirrored c S s \<longleftrightarrow>
     (is_aborted s c \<longrightarrow> (\<exists>x \<in> S. is_aborted s x \<and> reason_of s c = reason_of s x))"

text \<open>
  \<open>cleaned\<close>: once the controller of \<open>any\<close> is aborted, \<open>onAbort\<close> is registered on none
  of the inputs any more, or \<open>cleanup()\<close> is about to run.
\<close>

definition cleaned :: "sid \<Rightarrow> sid list \<Rightarrow> state \<Rightarrow> frame list \<Rightarrow> bool" where
  "cleaned c xs s fs \<longleftrightarrow>
     (is_aborted s c \<longrightarrow>
        (\<forall>x \<in> set xs. AnyOnAbort c xs \<notin> fst ` set (listeners_of s x)) \<or>
        AnyCleanup (AnyOnAbort c xs) xs \<in> set fs)"

definition tidy :: "sid \<Rightarrow> listener \<Rightarrow> state \<Rightarrow> frame list \<Rightarrow> bool" where
  "tidy c l0 s fs \<longleftrightarrow> (\<forall>xs. l0 = AnyOnAbort c xs \<longrightarrow> cleaned c xs s fs)"

definition linked :: "sid \<Rightarrow> listener \<Rightarrow> sid set \<Rightarrow> state \<Rightarrow> frame list \<Rightarrow> bool" where
  "linked c l0 S s fs \<longleftrightarrow>
     c < length (sigs s) \<and> target_of l0 = Some c \<and> (\<forall>x \<in> S. reads x l0 = x) \<and>
     targets_only c l0 S s fs \<and> armed c l0 S s fs \<and> mirrored c S s \<and> tidy c l0 s fs"

lemma targets_only_heap:
  "targets_only c l0 S s fs \<Longrightarrow> l \<in> fst ` set (listeners_of s x) \<Longrightarrow> target_of l = Some c \<Longrightarrow>
   l = l0 \<and> x \<in> S"
  unfolding targets_only_def by simp

lemma targets_only_frame:
  "targets_only c l0 S s fs \<Longrightarrow> Invoke x l \<in> set fs \<Longrightarrow> target_of l = Some c \<Longrightarrow>
   l = l0 \<and> x \<in> S"
  unfolding targets_only_def by simp

lemma frames_ok_invoke: "frames_ok s fs \<Longrightarrow> Invoke x l \<in> set fs \<Longrightarrow> is_aborted s x"
  unfolding frames_ok_def by blast

lemma frames_ok_cleanup:
  "frames_ok s fs \<Longrightarrow> AnyCleanup l xs \<in> set fs \<Longrightarrow> target_of l = Some c \<Longrightarrow> is_aborted s c"
  unfolding frames_ok_def by blast

lemma armed_registered:
  "armed c l0 S s fs \<Longrightarrow> \<not> is_aborted s c \<Longrightarrow> x \<in> S \<Longrightarrow> l0 \<in> fst ` set (listeners_of s x)"
  unfolding armed_def by simp

lemma armed_pending:
  "armed c l0 S s fs \<Longrightarrow> \<not> is_aborted s c \<Longrightarrow> x \<in> S \<Longrightarrow> is_aborted s x \<Longrightarrow>
   Invoke x l0 \<in> set fs"
  unfolding armed_def by blast

lemma targets_only_step:
  assumes st: "step_frame f s fs = (s', fs')" and t: "targets_only c l0 S s (f # fs)"
  shows "targets_only c l0 S s' fs'"
  unfolding targets_only_def
proof (rule conjI; intro allI impI)
  fix x l assume a: "l \<in> fst ` set (listeners_of s' x)" and b: "target_of l = Some c"
  from step_listener_kept [OF st a] have "l \<in> fst ` set (listeners_of s x)" .
  from targets_only_heap [OF t this b] show "l = l0 \<and> x \<in> S" .
next
  fix x l assume a: "Invoke x l \<in> set fs'" and b: "target_of l = Some c"
  show "l = l0 \<and> x \<in> S"
  proof (cases "Invoke x l \<in> set fs")
    case True
    then have "Invoke x l \<in> set (f # fs)" by simp
    from targets_only_frame [OF t this b] show ?thesis .
  next
    case False
    from step_new_invoke [OF st a False] have "l \<in> fst ` set (listeners_of s' x)" by simp
    from step_listener_kept [OF st this] have "l \<in> fst ` set (listeners_of s x)" .
    from targets_only_heap [OF t this b] show ?thesis .
  qed
qed

lemma armed_step:
  assumes st: "step_frame f s fs = (s', fs')" and ar: "armed c l0 S s (f # fs)"
    and ok: "frames_ok s (f # fs)" and c: "c < length (sigs s)" and tg: "target_of l0 = Some c"
  shows "armed c l0 S s' fs'"
  unfolding armed_def
proof (intro impI ballI)
  fix x assume na': "\<not> is_aborted s' c" and x: "x \<in> S"
  have na: "\<not> is_aborted s c"
  proof
    assume "is_aborted s c"
    from step_stays_aborted [OF st this] na' show False by simp
  qed
  from armed_registered [OF ar na x] have reg: "l0 \<in> fst ` set (listeners_of s x)" .
  have nf: "f \<noteq> Invoke x l0"
  proof
    assume "f = Invoke x l0"
    with st have "step_frame (Invoke x l0) s fs = (s', fs')" by simp
    from step_invoke_aborts_target [OF this reg tg c] na' show False by simp
  qed
  have nc: "f \<noteq> AnyCleanup l0 xs" for xs
  proof
    assume "f = AnyCleanup l0 xs"
    then have "AnyCleanup l0 xs \<in> set (f # fs)" by simp
    from frames_ok_cleanup [OF ok this tg] na show False by simp
  qed
  from reg obtain e where e: "e \<in> set (listeners_of s x)" and el: "fst e = l0" by auto
  have e': "e \<in> set (listeners_of s' x)"
  proof (rule ccontr)
    assume "e \<notin> set (listeners_of s' x)"
    from step_listener_lost [OF st e this] el nf nc show False by auto
  qed
  from e' el have reg': "l0 \<in> fst ` set (listeners_of s' x)" by force
  have pend: "Invoke x l0 \<in> set fs'" if a': "is_aborted s' x"
  proof (cases "is_aborted s x")
    case True
    from armed_pending [OF ar na x True] nf have "Invoke x l0 \<in> set fs" by simp
    from step_frames_kept [OF st this] show ?thesis .
  next
    case False
    from st a' False show ?thesis
    proof (rule step_newly_aborted)
      assume "\<And>l'. l' \<in> fst ` set (listeners_of s' x) \<Longrightarrow> Invoke x l' \<in> set fs'"
      from this [OF reg'] show ?thesis .
    qed
  qed
  from reg' pend
  show "l0 \<in> fst ` set (listeners_of s' x) \<and> (is_aborted s' x \<longrightarrow> Invoke x l0 \<in> set fs')"
    by simp
qed

lemma mirrored_step:
  assumes st: "step_frame f s fs = (s', fs')" and mi: "mirrored c S s"
    and ok: "config_ok s (f # fs)" and t: "targets_only c l0 S s (f # fs)"
    and rd: "\<forall>x \<in> S. reads x l0 = x"
  shows "mirrored c S s'"
  unfolding mirrored_def
proof
  assume a': "is_aborted s' c"
  show "\<exists>x \<in> S. is_aborted s' x \<and> reason_of s' c = reason_of s' x"
  proof (cases "is_aborted s c")
    case True
    with mi obtain x where x: "x \<in> S" "is_aborted s x" "reason_of s c = reason_of s x"
      unfolding mirrored_def by blast
    from step_stays_aborted [OF st x(2)] step_stays_aborted [OF st True] x(3)
    have "is_aborted s' x \<and> reason_of s' c = reason_of s' x" by simp
    with x(1) show ?thesis by (rule bexI [rotated])
  next
    case False
    from st a' False show ?thesis
    proof (rule step_newly_aborted)
      fix x l
      assume f: "f = Invoke x l" and reg: "l \<in> fst ` set (listeners_of s x)"
        and tg: "target_of l = Some c"
        and r: "reason_of s' c = stored_reason (reason_of s (reads x l))"
      from targets_only_heap [OF t reg tg] have l: "l = l0" and x: "x \<in> S" by simp_all
      from ok have fo: "frames_ok s (f # fs)" and dr: "defined_reasons s"
        by (simp_all add: config_ok_def)
      from f have "Invoke x l \<in> set (f # fs)" by simp
      from frames_ok_invoke [OF fo this] have ax: "is_aborted s x" .
      with dr have "reason_of s x \<noteq> Undefined" unfolding defined_reasons_def by blast
      moreover from rd x l have "reads x l = x" by simp
      ultimately have "reason_of s' c = reason_of s x" using r by simp
      with step_stays_aborted [OF st ax]
      have "is_aborted s' x \<and> reason_of s' c = reason_of s' x" by simp
      with x show ?thesis by (rule bexI [rotated])
    qed
  qed
qed

lemma cleaned_step:
  assumes st: "step_frame f s fs = (s', fs')" and cl: "cleaned c xs s (f # fs)"
    and t: "targets_only c (AnyOnAbort c xs) S s (f # fs)"
  shows "cleaned c xs s' fs'"
  unfolding cleaned_def
proof
  let ?l = "AnyOnAbort c xs"
  assume a': "is_aborted s' c"
  have gone: "\<forall>x \<in> set xs. ?l \<notin> fst ` set (listeners_of s' x)"
    if h: "\<forall>x \<in> set xs. ?l \<notin> fst ` set (listeners_of s x)"
  proof
    fix x assume x: "x \<in> set xs"
    show "?l \<notin> fst ` set (listeners_of s' x)"
    proof
      assume "?l \<in> fst ` set (listeners_of s' x)"
      from step_listener_kept [OF st this] h x show False by simp
    qed
  qed
  show "(\<forall>x \<in> set xs. ?l \<notin> fst ` set (listeners_of s' x)) \<or> AnyCleanup ?l xs \<in> set fs'"
  proof (cases "is_aborted s c")
    case True
    with cl have "(\<forall>x \<in> set xs. ?l \<notin> fst ` set (listeners_of s x)) \<or>
        AnyCleanup ?l xs \<in> set (f # fs)"
      unfolding cleaned_def by simp
    then consider "\<forall>x \<in> set xs. ?l \<notin> fst ` set (listeners_of s x)"
      | "f = AnyCleanup ?l xs" | "AnyCleanup ?l xs \<in> set fs"
      by fastforce
    then show ?thesis
    proof cases
      case 1
      from gone [OF this] show ?thesis by simp
    next
      case 2
      with st have "step_frame (AnyCleanup ?l xs) s fs = (s', fs')" by simp
      from step_cleanup_removes [OF this] show ?thesis by simp
    next
      case 3
      from step_frames_kept [OF st this] show ?thesis by simp
    qed
  next
    case False
    from st a' False show ?thesis
    proof (rule step_newly_aborted)
      fix x l
      assume f: "f = Invoke x l" and reg: "l \<in> fst ` set (listeners_of s x)"
        and tg: "target_of l = Some c"
      from targets_only_heap [OF t reg tg] have l: "l = ?l" by simp
      with st f have "step_frame (Invoke x ?l) s fs = (s', fs')" by simp
      from step_invoke_any_leaves_cleanup [OF this] reg l show ?thesis by simp
    qed
  qed
qed

lemma tidy_step:
  assumes "step_frame f s fs = (s', fs')" "tidy c l0 s (f # fs)"
    "targets_only c l0 S s (f # fs)"
  shows "tidy c l0 s' fs'"
  using assms unfolding tidy_def by (auto intro: cleaned_step)

lemma linked_step:
  assumes st: "step_frame f s fs = (s', fs')" and ok: "config_ok s (f # fs)"
    and li: "linked c l0 S s (f # fs)"
  shows "linked c l0 S s' fs'"
proof -
  from li have c: "c < length (sigs s)" and tg: "target_of l0 = Some c"
    and rd: "\<forall>x \<in> S. reads x l0 = x"
    and t: "targets_only c l0 S s (f # fs)" and ar: "armed c l0 S s (f # fs)"
    and mi: "mirrored c S s" and ti: "tidy c l0 s (f # fs)"
    by (simp_all add: linked_def)
  from ok have fo: "frames_ok s (f # fs)" by (simp add: config_ok_def)
  from step_length [OF st] c have "c < length (sigs s')" by simp
  moreover note tg rd targets_only_step [OF st t]
    armed_step [OF st ar fo c tg] mirrored_step [OF st mi ok t rd] tidy_step [OF st ti t]
  ultimately show ?thesis by (simp add: linked_def)
qed

lemma config_ok_exec: "config_ok s fs \<Longrightarrow> config_ok (exec s fs) []"
  by (rule exec_invariant [where J = config_ok]) (simp_all add: config_ok_step)

lemma linked_exec:
  assumes "config_ok s fs" "linked c l0 S s fs"
  shows "linked c l0 S (exec s fs) []"
proof -
  have "config_ok (exec s fs) [] \<and> linked c l0 S (exec s fs) []"
    by (rule exec_invariant [where J = "\<lambda>s fs. config_ok s fs \<and> linked c l0 S s fs"])
       (simp_all add: assms config_ok_step linked_step)
  then show ?thesis by simp
qed

subsection \<open>What delivery leaves alone\<close>

lemma exec_length [simp]: "length (sigs (exec s fs)) = length (sigs s)"
proof -
  have "length (sigs (exec s fs)) = length (sigs s)"
    by (rule exec_invariant [where J = "\<lambda>s' fs'. length (sigs s') = length (sigs s)"])
       (simp_all add: step_length)
  then show ?thesis .
qed

lemma exec_stays_aborted:
  assumes "is_aborted s y"
  shows "is_aborted (exec s fs) y \<and> reason_of (exec s fs) y = reason_of s y"
proof (rule exec_invariant
        [where J = "\<lambda>s' fs'. is_aborted s' y \<and> reason_of s' y = reason_of s y"])
  show "is_aborted s y \<and> reason_of s y = reason_of s y" using assms by simp
next
  fix s1 f fs1 s' fs'
  assume j: "is_aborted s1 y \<and> reason_of s1 y = reason_of s y"
    and st: "step_frame f s1 fs1 = (s', fs')"
  from j have "is_aborted s1 y" by simp
  from step_stays_aborted [OF st this] j
  show "is_aborted s' y \<and> reason_of s' y = reason_of s y" by simp
qed

lemma exec_listener_kept:
  assumes "l \<in> fst ` set (listeners_of (exec s fs) y)"
  shows "l \<in> fst ` set (listeners_of s y)"
proof -
  let ?J = "\<lambda>s' (fs' :: frame list). l \<in> fst ` set (listeners_of s' y)
              \<longrightarrow> l \<in> fst ` set (listeners_of s y)"
  have "?J (exec s fs) []"
  proof (rule exec_invariant [where J = ?J])
    show "?J s fs" by simp
  next
    fix s1 f fs1 s' fs'
    assume j: "?J s1 (f # fs1)" and st: "step_frame f s1 fs1 = (s', fs')"
    show "?J s' fs'"
    proof
      assume "l \<in> fst ` set (listeners_of s' y)"
      from step_listener_kept [OF st this] j show "l \<in> fst ` set (listeners_of s y)" by simp
    qed
  qed
  with assms show ?thesis by simp
qed

subsection \<open>The rest of the state\<close>

text \<open>Delivery changes the signals and the log of calls, and nothing else.\<close>

definition env :: "state \<Rightarrow> sid list \<times> sid option \<times> (nat \<times> sid \<times> safe_integer) list \<times> nat \<times>
    (nat \<times> string \<times> sid \<times> bool) list \<times> (nat \<times> nat \<times> nat \<times> sid \<times> listener) list \<times> nat" where
  "env s = (controllers s, neverSignal s, timers s, now s, tlisteners s, registry s, nextSymbol s)"

lemma env_upd_sig [simp]: "env (upd_sig x f s) = env s"
  by (simp add: env_def upd_sig_def)

lemma env_calls [simp]: "env (s\<lparr>calls := v\<rparr>) = env s"
  by (simp add: env_def)

lemma env_remove_listener [simp]: "env (remove_listener x l s) = env s"
  by (simp add: remove_listener_def)

lemma env_fold_remove [simp]: "env (fold (\<lambda>x. remove_listener x l) xs s) = env s"
  by (induction xs arbitrary: s) simp_all

lemma env_add_listener [simp]: "env (add_listener x l b s) = env s"
  by (simp add: add_listener_def)

lemma env_mark [simp]: "env (mark c v s) = env s"
  by (simp add: mark_def)

lemma env_unregister [simp]: "env (unregister b x l s) = env s"
  by (simp add: unregister_def)

lemma step_env: "step_frame f s fs = (s', fs') \<Longrightarrow> env s' = env s"
  by (erule step_frame_outcomes) simp_all

lemma exec_env [simp]: "env (exec s fs) = env s"
  by (rule exec_invariant [where J = "\<lambda>s' fs'. env s' = env s"]) (simp_all add: step_env)

lemma env_fields:
  assumes "env s' = env s"
  shows "controllers s' = controllers s" "neverSignal s' = neverSignal s"
    "timers s' = timers s" "now s' = now s" "tlisteners s' = tlisteners s"
    "registry s' = registry s" "nextSymbol s' = nextSymbol s"
  using assms by (simp_all add: env_def)

text \<open>The signals are read through four observations, which only depend on \<open>sigs\<close>.\<close>

lemma same_sigs:
  assumes "sigs s' = sigs s"
  shows "is_aborted s' = is_aborted s" "reason_of s' = reason_of s"
    "listeners_of s' = listeners_of s"
  using assms by (simp_all add: is_aborted_def reason_of_def listeners_of_def fun_eq_iff)

subsection \<open>Allocation\<close>

definition alloc :: "state \<Rightarrow> state" where
  "alloc s = snd (new_controller s)"

lemma new_controller_alloc: "new_controller s = (length (sigs s), alloc s)"
  by (simp add: alloc_def new_controller_def)

lemma length_alloc [simp]: "length (sigs (alloc s)) = Suc (length (sigs s))"
  by (simp add: alloc_def new_controller_def)

lemma is_aborted_alloc [simp]: "is_aborted (alloc s) y = is_aborted s y"
  by (auto simp: alloc_def new_controller_def is_aborted_def nth_append less_Suc_eq)

lemma reason_of_alloc [simp]: "reason_of (alloc s) y = reason_of s y"
  by (auto simp: alloc_def new_controller_def reason_of_def nth_append less_Suc_eq)

lemma listeners_of_alloc [simp]: "listeners_of (alloc s) y = listeners_of s y"
  by (auto simp: alloc_def new_controller_def listeners_of_def nth_append less_Suc_eq)

lemma env_alloc [simp]: "env (alloc s) = env s"
  by (simp add: alloc_def new_controller_def env_def)

lemma calls_alloc [simp]: "calls (alloc s) = calls s"
  by (simp add: alloc_def new_controller_def)

subsection \<open>Aborting a controller from outside\<close>

definition invocations :: "state \<Rightarrow> sid \<Rightarrow> frame list" where
  "invocations s c = map (\<lambda>e. Invoke c (fst e)) (listeners_of s c)"

lemma abort_controller_eq:
  "abort_controller c r s =
     (if c < length (sigs s) \<and> \<not> is_aborted s c
      then exec (mark c (stored_reason r) s) (invocations s c) else s)"
  by (auto simp: abort_controller_def signal_abort_def is_aborted_def mark_def
                 stored_reason_def invocations_def listeners_of_def)

lemma length_abort_controller [simp]:
  "length (sigs (abort_controller c r s)) = length (sigs s)"
  by (simp add: abort_controller_eq)

lemma env_abort_controller [simp]: "env (abort_controller c r s) = env s"
  by (simp add: abort_controller_eq)

lemma abort_controller_stays:
  "is_aborted s y \<Longrightarrow>
   is_aborted (abort_controller c r s) y \<and> reason_of (abort_controller c r s) y = reason_of s y"
  by (auto simp: abort_controller_eq exec_stays_aborted)

lemma abort_controller_aborts:
  assumes "c < length (sigs s)" "\<not> is_aborted s c"
  shows "is_aborted (abort_controller c r s) c \<and>
         reason_of (abort_controller c r s) c = stored_reason r"
proof -
  let ?m = "mark c (stored_reason r) s"
  from assms have "is_aborted ?m c" by simp
  from exec_stays_aborted [OF this, of "invocations s c"] assms
  show ?thesis by (simp add: abort_controller_eq)
qed

lemma abort_controller_listener_kept:
  "l \<in> fst ` set (listeners_of (abort_controller c r s) y) \<Longrightarrow>
   l \<in> fst ` set (listeners_of s y)"
  by (auto simp: abort_controller_eq split: if_splits dest!: exec_listener_kept)

lemma is_aborted_fields [simp]:
  "is_aborted (s\<lparr>controllers := a\<rparr>) = is_aborted s"
  "is_aborted (s\<lparr>neverSignal := b\<rparr>) = is_aborted s"
  "is_aborted (s\<lparr>timers := c\<rparr>) = is_aborted s"
  "is_aborted (s\<lparr>now := d\<rparr>) = is_aborted s"
  "is_aborted (s\<lparr>tlisteners := e\<rparr>) = is_aborted s"
  "is_aborted (s\<lparr>registry := f\<rparr>) = is_aborted s"
  "is_aborted (s\<lparr>nextSymbol := g\<rparr>) = is_aborted s"
  by (simp_all add: is_aborted_def fun_eq_iff)

lemma reason_of_fields [simp]:
  "reason_of (s\<lparr>controllers := a\<rparr>) = reason_of s"
  "reason_of (s\<lparr>neverSignal := b\<rparr>) = reason_of s"
  "reason_of (s\<lparr>timers := c\<rparr>) = reason_of s"
  "reason_of (s\<lparr>now := d\<rparr>) = reason_of s"
  "reason_of (s\<lparr>tlisteners := e\<rparr>) = reason_of s"
  "reason_of (s\<lparr>registry := f\<rparr>) = reason_of s"
  "reason_of (s\<lparr>nextSymbol := g\<rparr>) = reason_of s"
  by (simp_all add: reason_of_def fun_eq_iff)

lemma listeners_of_fields [simp]:
  "listeners_of (s\<lparr>controllers := a\<rparr>) = listeners_of s"
  "listeners_of (s\<lparr>neverSignal := b\<rparr>) = listeners_of s"
  "listeners_of (s\<lparr>timers := c\<rparr>) = listeners_of s"
  "listeners_of (s\<lparr>now := d\<rparr>) = listeners_of s"
  "listeners_of (s\<lparr>tlisteners := e\<rparr>) = listeners_of s"
  "listeners_of (s\<lparr>registry := f\<rparr>) = listeners_of s"
  "listeners_of (s\<lparr>nextSymbol := g\<rparr>) = listeners_of s"
  by (simp_all add: listeners_of_def fun_eq_iff)

subsection \<open>The operations as compositions of the primitives\<close>

lemma timeout_eq:
  "timeout ms s =
     (length (sigs s),
      (alloc s)\<lparr>timers := timers s @ [(now s + timer_delay ms, length (sigs s), ms)]\<rparr>)"
  by (simp add: timeout_def setTimeout_def new_controller_alloc)
     (simp add: alloc_def new_controller_def)

lemma any_eq:
  "any xs s =
     (length (sigs s), any_loop (length (sigs s)) (AnyOnAbort (length (sigs s)) xs) xs (alloc s))"
  by (simp add: any_def new_controller_alloc)

lemma follow_eq:
  "follow p s =
     (length (sigs s),
      if is_aborted s p then abort_controller (length (sigs s)) (reason_of s p) (alloc s)
      else add_listener p (FollowOnAbort (length (sigs s)) p) True (alloc s))"
  by (simp add: follow_def new_controller_alloc)

lemma fromEvent_eq:
  "fromEvent t n s =
     (length (sigs s), (alloc s)\<lparr>tlisteners := tlisteners s @ [(t, n, length (sigs s), True)]\<rparr>)"
  by (simp add: fromEvent_def new_controller_alloc)
     (simp add: alloc_def new_controller_def)

lemma never_eq:
  "never s =
     (case neverSignal s of
        None \<Rightarrow> (length (sigs s), (alloc s)\<lparr>neverSignal := Some (length (sigs s))\<rparr>)
      | Some n \<Rightarrow> (n, s))"
  by (simp add: never_def new_controller_alloc split: option.splits)

lemma manageLifecycle_eq:
  "manageLifecycle t sg cb s =
     (if is_aborted s sg then s\<lparr>calls := calls s @ [(cb, reason_of s sg)]\<rparr>
      else (add_listener sg (LifecycleListener (nextSymbol s) cb sg) True
              (s\<lparr>nextSymbol := Suc (nextSymbol s)\<rparr>))
           \<lparr>registry := registry s @
              [(t, nextSymbol s, nextSymbol s, sg, LifecycleListener (nextSymbol s) cb sg)]\<rparr>)"
proof -
  have "registry (add_listener sg l True (s\<lparr>nextSymbol := k\<rparr>)) = registry s" for l k
    using env_add_listener [of sg l True "s\<lparr>nextSymbol := k\<rparr>"] by (simp add: env_def)
  then show ?thesis by (simp add: manageLifecycle_def Let_def)
qed

text \<open>An invariant of the steps of a fold is an invariant of the fold.\<close>

lemma fold_invariant:
  assumes "P s" and "\<And>x s. x \<in> set xs \<Longrightarrow> P s \<Longrightarrow> P (f x s)"
  shows "P (fold f xs s)"
  using assms by (induction xs arbitrary: s) simp_all

subsection \<open>An aborted signal stays aborted, with its reason\<close>

definition settled :: "sid \<Rightarrow> val \<Rightarrow> state \<Rightarrow> bool" where
  "settled y r s \<longleftrightarrow> is_aborted s y \<and> reason_of s y = r"

lemma settled_simps [simp]:
  "settled y r (alloc s) = settled y r s"
  "settled y r (add_listener x l b s) = settled y r s"
  "settled y r (remove_listener x l s) = settled y r s"
  "settled y r (s\<lparr>calls := v\<rparr>) = settled y r s"
  "settled y r (hold c s) = settled y r s"
  "settled y r (s\<lparr>controllers := a1\<rparr>) = settled y r s"
  "settled y r (s\<lparr>neverSignal := a2\<rparr>) = settled y r s"
  "settled y r (s\<lparr>timers := a3\<rparr>) = settled y r s"
  "settled y r (s\<lparr>now := a4\<rparr>) = settled y r s"
  "settled y r (s\<lparr>tlisteners := a5\<rparr>) = settled y r s"
  "settled y r (s\<lparr>registry := a6\<rparr>) = settled y r s"
  "settled y r (s\<lparr>nextSymbol := a7\<rparr>) = settled y r s"
  by (simp_all add: settled_def hold_def)

lemma settled_abort_controller: "settled y r s \<Longrightarrow> settled y r (abort_controller c v s)"
  using abort_controller_stays [of s y c v] by (simp add: settled_def)

lemma settled_any_loop: "settled y r s \<Longrightarrow> settled y r (any_loop c l xs s)"
  by (induction xs arbitrary: s) (simp_all add: settled_abort_controller)

lemma settled_dispatch: "settled y r s \<Longrightarrow> settled y r (dispatch t n ev s)"
  unfolding dispatch_def
  by (rule fold_invariant) (simp_all add: fire_listener_def settled_abort_controller)

lemma settled_advance: "settled y r s \<Longrightarrow> settled y r (advance t s)"
  unfolding advance_def
  by (rule fold_invariant)
     (auto simp: timeout_callback_def settled_abort_controller)

lemma settled_collect: "settled y r s \<Longrightarrow> settled y r (collect t s)"
  unfolding collect_def
  by (rule fold_invariant) (auto simp: registry_callback_def)

lemma settled_step: "settled y r s \<Longrightarrow> settled y r (step op s)"
proof (cases op)
  case (Any xs)
  assume "settled y r s"
  with Any show ?thesis by (simp add: any_eq settled_any_loop)
next
  case (Follow p)
  assume "settled y r s"
  with Follow show ?thesis by (simp add: follow_eq settled_abort_controller)
next
  case (ManageLifecycle t sg cb)
  assume "settled y r s"
  with ManageLifecycle show ?thesis by (simp add: manageLifecycle_eq)
next
  case Never
  assume "settled y r s"
  with Never show ?thesis by (simp add: never_eq split: option.splits)
qed (simp_all add: new_controller_alloc settled_abort_controller timeout_eq fromEvent_eq
       settled_dispatch settled_advance settled_collect)

lemma settled_run: "settled y r s \<Longrightarrow> settled y r (run ops s)"
  unfolding run_def by (rule fold_invariant) (simp_all add: settled_step)

lemma run_append: "run (ops @ ops') s = run ops' (run ops s)"
  by (simp add: run_def)

subsection \<open>Signals are never deallocated\<close>

lemma length_any_loop [simp]: "length (sigs (any_loop c l xs s)) = length (sigs s)"
  by (induction xs arbitrary: s) simp_all

lemma length_dispatch [simp]: "length (sigs (dispatch t n ev s)) = length (sigs s)"
  unfolding dispatch_def
  by (rule fold_invariant [where P = "\<lambda>s'. length (sigs s') = length (sigs s)"])
     (simp_all add: fire_listener_def)

lemma length_advance [simp]: "length (sigs (advance t s)) = length (sigs s)"
  unfolding advance_def
  by (rule fold_invariant [where P = "\<lambda>s'. length (sigs s') = length (sigs s)"])
     (auto simp: timeout_callback_def)

lemma length_collect [simp]: "length (sigs (collect t s)) = length (sigs s)"
  unfolding collect_def
  by (rule fold_invariant [where P = "\<lambda>s'. length (sigs s') = length (sigs s)"])
     (auto simp: registry_callback_def)

lemma length_hold [simp]: "length (sigs (hold c s)) = length (sigs s)"
  by (simp add: hold_def)

lemma length_step: "length (sigs s) \<le> length (sigs (step op s))"
  by (cases op)
     (simp_all add: new_controller_alloc timeout_eq any_eq follow_eq fromEvent_eq never_eq
        manageLifecycle_eq split: option.splits)

lemma length_run: "length (sigs s) \<le> length (sigs (run ops s))"
proof (induction ops arbitrary: s)
  case Nil
  show ?case by (simp add: run_def)
next
  case (Cons op ops)
  from length_step [of s op] Cons [of "step op s"] show ?case by (simp add: run_def)
qed


lemma follow_fresh: "follow p s = (c, s1) \<Longrightarrow> c = length (sigs s) \<and> c < length (sigs s1)"
  by (auto simp: follow_eq)

subsection \<open>Well-formed states\<close>

text \<open>
  In every state that a program can reach, an aborted signal has a reason, and every
  reference to a controller (from a listener, a timer, an event target or the calling
  code) is to a controller that exists. The listeners held by the finalization registries
  are those of \<open>manageLifecycle\<close>.
\<close>

definition refs_ok :: "state \<Rightarrow> bool" where
  "refs_ok s \<longleftrightarrow>
     (\<forall>e \<in> set (timers s). fst (snd e) < length (sigs s)) \<and>
     (\<forall>e \<in> set (tlisteners s). fst (snd (snd e)) < length (sigs s)) \<and>
     (\<forall>c \<in> set (controllers s). c < length (sigs s)) \<and>
     (\<forall>e \<in> set (registry s). target_of (snd (snd (snd (snd e)))) = None)"

definition wf_state :: "state \<Rightarrow> bool" where
  "wf_state s \<longleftrightarrow> config_ok s [] \<and> refs_ok s"

lemma config_ok_heap:
  "config_ok s [] \<longleftrightarrow>
     (\<forall>x. is_aborted s x \<longrightarrow> reason_of s x \<noteq> Undefined) \<and>
     (\<forall>x l c. l \<in> fst ` set (listeners_of s x) \<longrightarrow> target_of l = Some c \<longrightarrow> c < length (sigs s))"
  by (simp add: config_ok_def frames_ok_def defined_reasons_def valid_targets_def)

lemma config_ok_simps [simp]:
  "config_ok (s\<lparr>calls := v\<rparr>) [] = config_ok s []"
  "config_ok (hold c s) [] = config_ok s []"
  "config_ok (s\<lparr>controllers := a1\<rparr>) [] = config_ok s []"
  "config_ok (s\<lparr>neverSignal := a2\<rparr>) [] = config_ok s []"
  "config_ok (s\<lparr>timers := a3\<rparr>) [] = config_ok s []"
  "config_ok (s\<lparr>now := a4\<rparr>) [] = config_ok s []"
  "config_ok (s\<lparr>tlisteners := a5\<rparr>) [] = config_ok s []"
  "config_ok (s\<lparr>registry := a6\<rparr>) [] = config_ok s []"
  "config_ok (s\<lparr>nextSymbol := a7\<rparr>) [] = config_ok s []"
  by (simp_all add: config_ok_heap hold_def)

lemma config_ok_alloc: "config_ok s [] \<Longrightarrow> config_ok (alloc s) []"
  by (auto simp: config_ok_heap less_Suc_eq)

lemma config_ok_remove_listener: "config_ok s [] \<Longrightarrow> config_ok (remove_listener x l s) []"
  by (auto simp: config_ok_heap listeners_of_remove_listener split: if_splits)

lemma config_ok_add_listener:
  assumes "config_ok s []" "\<And>c. target_of l = Some c \<Longrightarrow> c < length (sigs s)"
  shows "config_ok (add_listener x l b s) []"
  using assms by (auto simp: config_ok_heap listeners_of_add_listener split: if_splits)

lemma config_ok_mark:
  assumes "config_ok s []" "c < length (sigs s)" "v \<noteq> Undefined"
  shows "config_ok (mark c v s) (invocations s c)"
  using assms
  by (auto simp: config_ok_def frames_ok_def defined_reasons_def valid_targets_def
        invocations_def)

lemma config_ok_abort_controller:
  "config_ok s [] \<Longrightarrow> config_ok (abort_controller c r s) []"
  by (simp add: abort_controller_eq config_ok_exec config_ok_mark)

lemma refs_ok_env:
  assumes "refs_ok s" "env s' = env s" "length (sigs s) \<le> length (sigs s')"
  shows "refs_ok s'"
  using assms env_fields [OF assms(2)] by (fastforce simp: refs_ok_def)

lemma refs_ok_abort_controller: "refs_ok s \<Longrightarrow> refs_ok (abort_controller c r s)"
  by (erule refs_ok_env) simp_all

lemma refs_ok_add_listener: "refs_ok s \<Longrightarrow> refs_ok (add_listener x l b s)"
  by (erule refs_ok_env) simp_all

lemma refs_ok_remove_listener: "refs_ok s \<Longrightarrow> refs_ok (remove_listener x l s)"
  by (erule refs_ok_env) simp_all

lemma refs_ok_alloc: "refs_ok s \<Longrightarrow> refs_ok (alloc s)"
  by (erule refs_ok_env) simp_all

lemma wf_abort_controller: "wf_state s \<Longrightarrow> wf_state (abort_controller c r s)"
  by (simp add: wf_state_def config_ok_abort_controller refs_ok_abort_controller)

lemma wf_add_listener:
  assumes "wf_state s" "case target_of l of None \<Rightarrow> True | Some c \<Rightarrow> c < length (sigs s)"
  shows "wf_state (add_listener x l b s)"
proof -
  from assms(1) have a: "config_ok s []" and b: "refs_ok s" by (simp_all add: wf_state_def)
  have "config_ok (add_listener x l b s) []"
    by (rule config_ok_add_listener [OF a]) (use assms(2) in simp)
  with refs_ok_add_listener [OF b] show ?thesis by (simp add: wf_state_def)
qed

lemma wf_any_loop:
  assumes "wf_state s" "\<And>c. target_of l = Some c \<Longrightarrow> c < length (sigs s)"
  shows "wf_state (any_loop c l xs s)"
  using assms
proof (induction xs arbitrary: s)
  case Nil
  then show ?case by simp
next
  case (Cons x xs)
  show ?case
  proof (cases "is_aborted s x")
    case True
    with Cons.prems(1) show ?thesis by (simp add: wf_abort_controller)
  next
    case False
    have "wf_state (add_listener x l False s)"
      using Cons.prems by (simp add: wf_state_def config_ok_add_listener refs_ok_add_listener)
    from Cons.IH [OF this] Cons.prems(2) False show ?thesis by simp
  qed
qed

lemma wf_dispatch: "wf_state s \<Longrightarrow> wf_state (dispatch t n ev s)"
  unfolding dispatch_def
proof (rule fold_invariant)
  fix e s' assume w: "wf_state s'"
  have "wf_state (s'\<lparr>tlisteners := filter (\<lambda>e'. e' \<noteq> e) (tlisteners s')\<rparr>)"
    using w by (auto simp: wf_state_def refs_ok_def)
  with w show "wf_state (fire_listener ev e s')"
    by (simp add: fire_listener_def wf_abort_controller)
qed

lemma wf_advance: "wf_state s \<Longrightarrow> wf_state (advance t s)"
  unfolding advance_def
proof (rule fold_invariant)
  assume "wf_state s"
  then show "wf_state (s\<lparr>now := now s + t, timers := filter (\<lambda>e. \<not> fst e \<le> now s + t) (timers s)\<rparr>)"
    by (auto simp: wf_state_def refs_ok_def)
next
  fix e s' assume "wf_state s'"
  then show "wf_state ((\<lambda>(due, controller, milliseconds). timeout_callback controller milliseconds) e s')"
    by (cases e) (simp add: timeout_callback_def wf_abort_controller)
qed

lemma wf_collect: "wf_state s \<Longrightarrow> wf_state (collect t s)"
  unfolding collect_def
proof (rule fold_invariant)
  assume "wf_state s"
  then show "wf_state (s\<lparr>registry := filter (\<lambda>e. fst e \<noteq> t) (registry s)\<rparr>)"
    by (auto simp: wf_state_def refs_ok_def)
next
  fix e s' assume "wf_state s'"
  then show "wf_state ((\<lambda>(t, held, cleanupId, signal, eventListener).
      registry_callback cleanupId signal eventListener held) e s')"
    by (cases e)
       (auto simp: registry_callback_def wf_state_def config_ok_remove_listener
          refs_ok_remove_listener)
qed

lemma wf_init: "wf_state init_state"
  by (simp add: wf_state_def config_ok_heap refs_ok_def init_state_def is_aborted_def
        listeners_of_def)

lemma wf_alloc: "wf_state s \<Longrightarrow> wf_state (alloc s)"
  by (simp add: wf_state_def config_ok_alloc refs_ok_alloc)

lemma refs_ok_fields:
  "refs_ok (s\<lparr>calls := v\<rparr>) = refs_ok s"
  "refs_ok (s\<lparr>neverSignal := a2\<rparr>) = refs_ok s"
  "refs_ok (s\<lparr>now := a4\<rparr>) = refs_ok s"
  "refs_ok (s\<lparr>nextSymbol := a7\<rparr>) = refs_ok s"
  by (simp_all add: refs_ok_def)

lemma wf_step: "wf_state s \<Longrightarrow> wf_state (step op s)"
proof (cases op)
  case NewController
  assume "wf_state s"
  from wf_alloc [OF this] have "wf_state (hold (length (sigs s)) (alloc s))"
    by (auto simp: wf_state_def refs_ok_def hold_def)
  with NewController show ?thesis by (simp add: new_controller_alloc)
next
  case (ControllerAbort c r)
  assume "wf_state s"
  with ControllerAbort show ?thesis by (simp add: wf_abort_controller)
next
  case (Timeout ms)
  assume "wf_state s"
  from wf_alloc [OF this]
  have "wf_state ((alloc s)\<lparr>timers := timers s @ [(now s + timer_delay ms, length (sigs s), ms)]\<rparr>)"
    using env_fields(3) [OF env_alloc [of s]] by (auto simp: wf_state_def refs_ok_def)
  with Timeout show ?thesis by (simp add: timeout_eq)
next
  case (Any xs)
  assume "wf_state s"
  from wf_alloc [OF this]
  have "wf_state (any_loop (length (sigs s)) (AnyOnAbort (length (sigs s)) xs) xs (alloc s))"
    by (rule wf_any_loop) simp
  with Any \<open>wf_state s\<close> show ?thesis by (simp add: any_eq)
next
  case (ManageLifecycle t sg cb)
  assume w: "wf_state s"
  let ?l = "LifecycleListener (nextSymbol s) cb sg"
  let ?s1 = "add_listener sg ?l True (s\<lparr>nextSymbol := Suc (nextSymbol s)\<rparr>)"
  from w have w0: "config_ok (s\<lparr>nextSymbol := Suc (nextSymbol s)\<rparr>) []"
    "refs_ok (s\<lparr>nextSymbol := Suc (nextSymbol s)\<rparr>)"
    by (simp_all add: wf_state_def refs_ok_fields)
  have "config_ok ?s1 []" by (rule config_ok_add_listener [OF w0(1)]) simp
  moreover have "refs_ok ?s1" by (rule refs_ok_add_listener [OF w0(2)])
  ultimately have w1: "wf_state ?s1" by (simp add: wf_state_def)
  have "registry ?s1 = registry s"
    using env_fields(6) [OF env_add_listener [of sg ?l True "s\<lparr>nextSymbol := Suc (nextSymbol s)\<rparr>"]]
    by (simp add: env_def)
  with w1 have "wf_state (?s1\<lparr>registry := registry s @ [(t, nextSymbol s, nextSymbol s, sg, ?l)]\<rparr>)"
    by (auto simp: wf_state_def refs_ok_def)
  moreover from w have "wf_state (s\<lparr>calls := calls s @ [(cb, reason_of s sg)]\<rparr>)"
    by (simp add: wf_state_def refs_ok_fields)
  ultimately show ?thesis using ManageLifecycle w by (simp add: manageLifecycle_eq)
next
  case (Follow p)
  assume w: "wf_state s"
  let ?c = "length (sigs s)"
  have h: "wf_state (hold ?c s')" if "wf_state s'" "?c < length (sigs s')" for s'
    using that by (auto simp: wf_state_def refs_ok_def hold_def)
  from wf_alloc [OF w] have a: "wf_state (abort_controller ?c (reason_of s p) (alloc s))"
    by (rule wf_abort_controller)
  from wf_alloc [OF w] have b: "wf_state (add_listener p (FollowOnAbort ?c p) True (alloc s))"
    by (rule wf_add_listener) simp
  from h [OF a] h [OF b] Follow w show ?thesis by (simp add: follow_eq)
next
  case (FromEvent t n)
  assume "wf_state s"
  from wf_alloc [OF this]
  have "wf_state ((alloc s)\<lparr>tlisteners := tlisteners s @ [(t, n, length (sigs s), True)]\<rparr>)"
    using env_fields(5) [OF env_alloc [of s]] by (auto simp: wf_state_def refs_ok_def)
  with FromEvent show ?thesis by (simp add: fromEvent_eq)
next
  case Never
  assume w: "wf_state s"
  from wf_alloc [OF w] have "wf_state ((alloc s)\<lparr>neverSignal := Some (length (sigs s))\<rparr>)"
    by (simp add: wf_state_def refs_ok_fields)
  with Never w show ?thesis by (simp add: never_eq split: option.splits)
next
  case (Dispatch t n ev)
  assume "wf_state s"
  with Dispatch show ?thesis by (simp add: wf_dispatch)
next
  case (Advance t)
  assume "wf_state s"
  with Advance show ?thesis by (simp add: wf_advance)
next
  case (Collect t)
  assume "wf_state s"
  with Collect show ?thesis by (simp add: wf_collect)
qed

lemma wf_run: "wf_state s \<Longrightarrow> wf_state (run ops s)"
  unfolding run_def by (rule fold_invariant) (simp_all add: wf_step)

lemma wf_reachable: "wf_state (run ops init_state)"
  by (rule wf_run) (rule wf_init)

subsection \<open>The link between a controller and its sources, between operations\<close>

lemma tidy_heap:
  "tidy c l0 s [] \<longleftrightarrow>
     (\<forall>xs x. is_aborted s c \<longrightarrow> l0 = AnyOnAbort c xs \<longrightarrow> x \<in> set xs \<longrightarrow>
        l0 \<notin> fst ` set (listeners_of s x))"
  unfolding tidy_def cleaned_def by simp blast

lemma linked_heap:
  "linked c l0 S s [] \<longleftrightarrow>
     c < length (sigs s) \<and> target_of l0 = Some c \<and> (\<forall>x \<in> S. reads x l0 = x) \<and>
     (\<forall>x l. l \<in> fst ` set (listeners_of s x) \<longrightarrow> target_of l = Some c \<longrightarrow> l = l0 \<and> x \<in> S) \<and>
     (\<not> is_aborted s c \<longrightarrow> (\<forall>x \<in> S. l0 \<in> fst ` set (listeners_of s x) \<and> \<not> is_aborted s x)) \<and>
     (is_aborted s c \<longrightarrow> (\<exists>x \<in> S. is_aborted s x \<and> reason_of s c = reason_of s x)) \<and>
     (\<forall>xs x. is_aborted s c \<longrightarrow> l0 = AnyOnAbort c xs \<longrightarrow> x \<in> set xs \<longrightarrow>
        l0 \<notin> fst ` set (listeners_of s x))"
  by (simp add: linked_def targets_only_def armed_def mirrored_def tidy_heap)

lemma linked_heapD:
  assumes "linked c l0 S s []"
  shows "c < length (sigs s)" "target_of l0 = Some c" "\<forall>x \<in> S. reads x l0 = x"
    and "\<And>x l. l \<in> fst ` set (listeners_of s x) \<Longrightarrow> target_of l = Some c \<Longrightarrow> l = l0 \<and> x \<in> S"
    and "\<And>x. \<not> is_aborted s c \<Longrightarrow> x \<in> S \<Longrightarrow>
                l0 \<in> fst ` set (listeners_of s x) \<and> \<not> is_aborted s x"
    and "is_aborted s c \<Longrightarrow> \<exists>x \<in> S. is_aborted s x \<and> reason_of s c = reason_of s x"
    and "\<And>xs x. is_aborted s c \<Longrightarrow> l0 = AnyOnAbort c xs \<Longrightarrow> x \<in> set xs \<Longrightarrow>
                l0 \<notin> fst ` set (listeners_of s x)"
proof -
  note h = assms [unfolded linked_heap]
  from h show "c < length (sigs s)" by (elim conjE)
  from h show "target_of l0 = Some c" by (elim conjE)
  from h show "\<forall>x \<in> S. reads x l0 = x" by (elim conjE)
  from h have 4: "\<forall>x l. l \<in> fst ` set (listeners_of s x) \<longrightarrow> target_of l = Some c \<longrightarrow> l = l0 \<and> x \<in> S"
    by (elim conjE)
  show "l = l0 \<and> x \<in> S" if "l \<in> fst ` set (listeners_of s x)" "target_of l = Some c" for x l
    using 4 [rule_format, OF that] .
  from h have 5: "\<not> is_aborted s c \<longrightarrow> (\<forall>x \<in> S. l0 \<in> fst ` set (listeners_of s x) \<and> \<not> is_aborted s x)"
    by (elim conjE)
  show "l0 \<in> fst ` set (listeners_of s x) \<and> \<not> is_aborted s x" if "\<not> is_aborted s c" "x \<in> S" for x
    using 5 [rule_format, OF that] .
  from h have 6: "is_aborted s c \<longrightarrow> (\<exists>x \<in> S. is_aborted s x \<and> reason_of s c = reason_of s x)"
    by (elim conjE)
  show "\<exists>x \<in> S. is_aborted s x \<and> reason_of s c = reason_of s x" if "is_aborted s c"
    using 6 [rule_format, OF that] .
  from h have 7: "\<forall>xs x. is_aborted s c \<longrightarrow> l0 = AnyOnAbort c xs \<longrightarrow> x \<in> set xs \<longrightarrow>
        l0 \<notin> fst ` set (listeners_of s x)"
    by (elim conjE)
  show "l0 \<notin> fst ` set (listeners_of s x)" if "is_aborted s c" "l0 = AnyOnAbort c xs" "x \<in> set xs" for xs x
    using 7 [rule_format, OF that] .
qed

lemma linked_heapI:
  assumes "c < length (sigs s)" "target_of l0 = Some c" "\<forall>x \<in> S. reads x l0 = x"
    and "\<And>x l. l \<in> fst ` set (listeners_of s x) \<Longrightarrow> target_of l = Some c \<Longrightarrow> l = l0 \<and> x \<in> S"
    and "\<And>x. \<not> is_aborted s c \<Longrightarrow> x \<in> S \<Longrightarrow>
                l0 \<in> fst ` set (listeners_of s x) \<and> \<not> is_aborted s x"
    and "is_aborted s c \<Longrightarrow> \<exists>x \<in> S. is_aborted s x \<and> reason_of s c = reason_of s x"
    and "\<And>xs x. is_aborted s c \<Longrightarrow> l0 = AnyOnAbort c xs \<Longrightarrow> x \<in> set xs \<Longrightarrow>
                l0 \<notin> fst ` set (listeners_of s x)"
  shows "linked c l0 S s []"
  unfolding linked_heap
proof (intro conjI)
  show "\<forall>x l. l \<in> fst ` set (listeners_of s x) \<longrightarrow> target_of l = Some c \<longrightarrow> l = l0 \<and> x \<in> S"
    using assms(4) by (intro allI impI)
  show "\<not> is_aborted s c \<longrightarrow> (\<forall>x \<in> S. l0 \<in> fst ` set (listeners_of s x) \<and> \<not> is_aborted s x)"
    using assms(5) by (intro ballI impI)
  show "is_aborted s c \<longrightarrow> (\<exists>x \<in> S. is_aborted s x \<and> reason_of s c = reason_of s x)"
    using assms(6) by (intro impI)
  show "\<forall>xs x. is_aborted s c \<longrightarrow> l0 = AnyOnAbort c xs \<longrightarrow> x \<in> set xs \<longrightarrow>
        l0 \<notin> fst ` set (listeners_of s x)"
    using assms(7) by (intro allI impI)
qed (fact assms(1-3))+

lemma linked_simps [simp]:
  "linked c l0 S (s\<lparr>calls := v\<rparr>) [] = linked c l0 S s []"
  "linked c l0 S (hold c' s) [] = linked c l0 S s []"
  "linked c l0 S (s\<lparr>controllers := a1\<rparr>) [] = linked c l0 S s []"
  "linked c l0 S (s\<lparr>neverSignal := a2\<rparr>) [] = linked c l0 S s []"
  "linked c l0 S (s\<lparr>timers := a3\<rparr>) [] = linked c l0 S s []"
  "linked c l0 S (s\<lparr>now := a4\<rparr>) [] = linked c l0 S s []"
  "linked c l0 S (s\<lparr>tlisteners := a5\<rparr>) [] = linked c l0 S s []"
  "linked c l0 S (s\<lparr>registry := a6\<rparr>) [] = linked c l0 S s []"
  "linked c l0 S (s\<lparr>nextSymbol := a7\<rparr>) [] = linked c l0 S s []"
  by (simp_all add: linked_heap hold_def)

lemma linked_change:
  assumes li: "linked c l0 S s []"
    and len: "length (sigs s) \<le> length (sigs s')"
    and ab: "is_aborted s' = is_aborted s" and re: "reason_of s' = reason_of s"
    and new: "\<And>l y. l \<in> fst ` set (listeners_of s' y) \<Longrightarrow>
                l \<in> fst ` set (listeners_of s y) \<or> target_of l \<noteq> Some c"
    and keep: "\<And>y. l0 \<in> fst ` set (listeners_of s y) \<Longrightarrow> l0 \<in> fst ` set (listeners_of s' y)"
  shows "linked c l0 S s' []"
proof -
  note h = linked_heapD(1-3) [OF li] and only = linked_heapD(4) [OF li]
    and arm = linked_heapD(5) [OF li] and mir = linked_heapD(6) [OF li]
    and tid = linked_heapD(7) [OF li]
  have 4: "l0 \<notin> fst ` set (listeners_of s' x)"
    if "is_aborted s' c" "l0 = AnyOnAbort c xs" "x \<in> set xs" for xs x
  proof
    assume "l0 \<in> fst ` set (listeners_of s' x)"
    from new [OF this] h(2) have "l0 \<in> fst ` set (listeners_of s x)" by simp
    with tid [of xs x] that ab show False by simp
  qed
  have 1: "l = l0 \<and> x \<in> S"
    if a: "l \<in> fst ` set (listeners_of s' x)" and b: "target_of l = Some c" for x l
  proof -
    from new [OF a] b have "l \<in> fst ` set (listeners_of s x)" by simp
    from only [OF this b] show ?thesis .
  qed
  have 2: "l0 \<in> fst ` set (listeners_of s' x) \<and> \<not> is_aborted s' x"
    if "\<not> is_aborted s' c" "x \<in> S" for x
    using arm [of x] keep [of x] that ab by simp
  have 3: "\<exists>x \<in> S. is_aborted s' x \<and> reason_of s' c = reason_of s' x" if "is_aborted s' c"
    using mir that ab re by simp
  from h(1) len have "c < length (sigs s')" by simp
  then show ?thesis using h(2,3) 1 2 3 4 by (rule linked_heapI)
qed

lemma linked_alloc: "linked c l0 S s [] \<Longrightarrow> linked c l0 S (alloc s) []"
  by (erule linked_change) (simp_all add: fun_eq_iff)

lemma linked_add_listener:
  assumes "linked c l0 S s []" "target_of l \<noteq> Some c"
  shows "linked c l0 S (add_listener x l b s) []"
  using assms(1)
proof (rule linked_change)
  fix l' y assume "l' \<in> fst ` set (listeners_of (add_listener x l b s) y)"
  then have "l' \<in> fst ` set (listeners_of s y) \<or> l' = l"
    by (auto simp: listeners_of_add_listener split: if_splits)
  with assms(2) show "l' \<in> fst ` set (listeners_of s y) \<or> target_of l' \<noteq> Some c" by auto
next
  fix y assume "l0 \<in> fst ` set (listeners_of s y)"
  then show "l0 \<in> fst ` set (listeners_of (add_listener x l b s) y)"
    by (auto simp: listeners_of_add_listener)
qed (simp_all add: fun_eq_iff)

lemma linked_remove_listener:
  assumes "linked c l0 S s []" "l \<noteq> l0"
  shows "linked c l0 S (remove_listener x l s) []"
  using assms(1)
proof (rule linked_change)
  fix l' y assume "l' \<in> fst ` set (listeners_of (remove_listener x l s) y)"
  then have "l' \<in> fst ` set (listeners_of s y)"
    by (auto simp: listeners_of_remove_listener split: if_splits)
  then show "l' \<in> fst ` set (listeners_of s y) \<or> target_of l' \<noteq> Some c" by simp
next
  fix y assume "l0 \<in> fst ` set (listeners_of s y)"
  with assms(2) show "l0 \<in> fst ` set (listeners_of (remove_listener x l s) y)"
    by (auto simp: listeners_of_remove_listener)
qed (simp_all add: fun_eq_iff)

lemma linked_mark:
  assumes li: "linked c l0 S s []" and ne: "c' \<noteq> c" and c': "c' < length (sigs s)"
    and na: "\<not> is_aborted s c'"
  shows "linked c l0 S (mark c' v s) (invocations s c')"
proof -
  let ?s = "mark c' v s"
  note h = linked_heapD(1-3) [OF li] and only = linked_heapD(4) [OF li]
    and arm = linked_heapD(5) [OF li] and mir = linked_heapD(6) [OF li]
    and tid = linked_heapD(7) [OF li]
  have ti: "tidy c l0 ?s (invocations s c')"
    unfolding tidy_def cleaned_def using tid ne by auto
  have inv: "Invoke x l \<in> set (invocations s c') \<longleftrightarrow> x = c' \<and> l \<in> fst ` set (listeners_of s c')"
    for x l
    by (auto simp: invocations_def)
  have t: "targets_only c l0 S ?s (invocations s c')"
    unfolding targets_only_def using only by (simp add: inv)
  have a: "armed c l0 S ?s (invocations s c')"
    unfolding armed_def using arm ne by (auto simp: inv)
  have m: "mirrored c S ?s"
    unfolding mirrored_def
  proof
    assume "is_aborted ?s c"
    with ne have "is_aborted s c" by simp
    from mir [OF this] obtain x where x: "x \<in> S" "is_aborted s x" "reason_of s c = reason_of s x"
      by blast
    from x(2) na have "x \<noteq> c'" by auto
    with x ne have "is_aborted ?s x \<and> reason_of ?s c = reason_of ?s x" by simp
    with x(1) show "\<exists>x \<in> S. is_aborted ?s x \<and> reason_of ?s c = reason_of ?s x" by blast
  qed
  from h t a m ti show ?thesis by (simp add: linked_def)
qed

lemma linked_abort_controller:
  assumes "config_ok s []" "linked c l0 S s []" "c' \<noteq> c"
  shows "linked c l0 S (abort_controller c' r s) []"
proof (cases "c' < length (sigs s) \<and> \<not> is_aborted s c'")
  case True
  then have c': "c' < length (sigs s)" and na: "\<not> is_aborted s c'" by simp_all
  have "linked c l0 S (exec (mark c' (stored_reason r) s) (invocations s c')) []"
    by (rule linked_exec [OF config_ok_mark [OF assms(1) c'] linked_mark [OF assms(2,3) c' na]])
       simp
  with True show ?thesis by (simp add: abort_controller_eq)
next
  case False
  with assms(2) show ?thesis by (auto simp: abort_controller_eq)
qed

text \<open>
  \<open>avoids c op s\<close>: the operation does not itself abort \<open>c\<close>, be it by the caller's
  hand, by a timer that is due or by an event listener that fires.
\<close>

fun avoids :: "sid \<Rightarrow> operation \<Rightarrow> state \<Rightarrow> bool" where
  "avoids c (ControllerAbort c' r) s = (c' = c \<longrightarrow> c \<notin> set (controllers s))"
| "avoids c (Advance t) s = (\<forall>e \<in> set (timers s). fst e \<le> now s + t \<longrightarrow> fst (snd e) \<noteq> c)"
| "avoids c (Dispatch tg n ev) s =
     (\<forall>e \<in> set (tlisteners s). fst e = tg \<and> fst (snd e) = n \<longrightarrow> fst (snd (snd e)) \<noteq> c)"
| "avoids c _ s = True"

definition keeps :: "sid \<Rightarrow> listener \<Rightarrow> sid set \<Rightarrow> state \<Rightarrow> bool" where
  "keeps c l0 S s \<longleftrightarrow> wf_state s \<and> linked c l0 S s []"

lemma keeps_abort_controller:
  "keeps c l0 S s \<Longrightarrow> c' \<noteq> c \<Longrightarrow> keeps c l0 S (abort_controller c' r s)"
  by (simp add: keeps_def linked_abort_controller wf_state_def config_ok_abort_controller
        refs_ok_abort_controller)

lemma keeps_alloc: "keeps c l0 S s \<Longrightarrow> keeps c l0 S (alloc s)"
  by (simp add: keeps_def wf_alloc linked_alloc)

lemma keeps_add_listener:
  assumes "keeps c l0 S s" "case target_of l of None \<Rightarrow> True | Some c' \<Rightarrow> c' < length (sigs s) \<and> c' \<noteq> c"
  shows "keeps c l0 S (add_listener x l b s)"
proof -
  from assms(2) have a: "case target_of l of None \<Rightarrow> True | Some c' \<Rightarrow> c' < length (sigs s)"
    and b: "target_of l \<noteq> Some c"
    by (auto split: option.splits)
  from assms(1) wf_add_listener [OF _ a] linked_add_listener [OF _ b] show ?thesis
    by (simp add: keeps_def)
qed

lemma keeps_remove_listener:
  assumes "keeps c l0 S s" "l \<noteq> l0"
  shows "keeps c l0 S (remove_listener x l s)"
  using assms
  by (simp add: keeps_def wf_state_def config_ok_remove_listener refs_ok_remove_listener
        linked_remove_listener)

lemma keeps_any_loop:
  assumes "keeps c l0 S s" "c' < length (sigs s)" "c' \<noteq> c" "target_of l = Some c'"
  shows "keeps c l0 S (any_loop c' l xs s)"
  using assms(1,2)
proof (induction xs arbitrary: s)
  case Nil
  then show ?case by simp
next
  case (Cons x xs)
  show ?case
  proof (cases "is_aborted s x")
    case True
    with Cons.prems assms(3) show ?thesis by (simp add: keeps_abort_controller)
  next
    case False
    have "keeps c l0 S (add_listener x l False s)"
      by (rule keeps_add_listener [OF Cons.prems(1)]) (use assms(3,4) Cons.prems(2) in simp)
    from Cons.IH [OF this] Cons.prems(2) False show ?thesis by simp
  qed
qed

lemma keeps_env:
  assumes "keeps c l0 S s" "sigs s' = sigs s" "refs_ok s'"
  shows "keeps c l0 S s'"
proof -
  from same_sigs [OF assms(2)] assms(2)
  have "linked c l0 S s' [] = linked c l0 S s []" "config_ok s' [] = config_ok s []"
    by (simp_all add: linked_heap config_ok_heap)
  with assms(1,3) show ?thesis by (simp add: keeps_def wf_state_def)
qed

lemma keeps_dispatch:
  assumes "keeps c l0 S s" "avoids c (Dispatch t n ev) s"
  shows "keeps c l0 S (dispatch t n ev s)"
  unfolding dispatch_def
proof (rule fold_invariant)
  show "keeps c l0 S s" by fact
next
  fix e s'
  assume e: "e \<in> set (filter (\<lambda>e. fst e = t \<and> fst (snd e) = n) (tlisteners s))"
    and k: "keeps c l0 S s'"
  from e assms(2) have ne: "fst (snd (snd e)) \<noteq> c" by auto
  have "keeps c l0 S (s'\<lparr>tlisteners := filter (\<lambda>e'. e' \<noteq> e) (tlisteners s')\<rparr>)"
    by (rule keeps_env [OF k]) (use k in \<open>auto simp: keeps_def wf_state_def refs_ok_def\<close>)
  with k ne show "keeps c l0 S (fire_listener ev e s')"
    by (simp add: fire_listener_def keeps_abort_controller)
qed

lemma keeps_advance:
  assumes "keeps c l0 S s" "avoids c (Advance t) s"
  shows "keeps c l0 S (advance t s)"
  unfolding advance_def
proof (rule fold_invariant)
  show "keeps c l0 S (s\<lparr>now := now s + t, timers := filter (\<lambda>e. \<not> fst e \<le> now s + t) (timers s)\<rparr>)"
    by (rule keeps_env [OF assms(1)])
       (use assms(1) in \<open>auto simp: keeps_def wf_state_def refs_ok_def\<close>)
next
  fix e s'
  assume e: "e \<in> set (sort_key fst (filter (\<lambda>e. fst e \<le> now s + t) (timers s)))"
    and k: "keeps c l0 S s'"
  from e assms(2) have "fst (snd e) \<noteq> c" by auto
  with k show "keeps c l0 S ((\<lambda>(due, controller, milliseconds).
      timeout_callback controller milliseconds) e s')"
    by (cases e) (simp add: timeout_callback_def keeps_abort_controller)
qed

lemma keeps_collect:
  assumes "keeps c l0 S s"
  shows "keeps c l0 S (collect t s)"
  unfolding collect_def
proof (rule fold_invariant)
  show "keeps c l0 S (s\<lparr>registry := filter (\<lambda>e. fst e \<noteq> t) (registry s)\<rparr>)"
    by (rule keeps_env [OF assms(1)])
       (use assms(1) in \<open>auto simp: keeps_def wf_state_def refs_ok_def\<close>)
next
  fix e s'
  assume e: "e \<in> set (filter (\<lambda>e. fst e = t) (registry s))" and k: "keeps c l0 S s'"
  from assms have "target_of l0 = Some c" by (simp add: keeps_def linked_heap)
  moreover from e assms have "target_of (snd (snd (snd (snd e)))) = None"
    by (auto simp: keeps_def wf_state_def refs_ok_def)
  ultimately have "snd (snd (snd (snd e))) \<noteq> l0" by auto
  with k show "keeps c l0 S ((\<lambda>(t, held, cleanupId, signal, eventListener).
      registry_callback cleanupId signal eventListener held) e s')"
    by (cases e) (auto simp: registry_callback_def keeps_remove_listener)
qed

lemma keeps_step:
  assumes k: "keeps c l0 S s" and av: "avoids c op s"
  shows "keeps c l0 S (step op s)"
proof -
  from k have c: "c < length (sigs s)" by (simp add: keeps_def linked_heap)
  let ?n = "length (sigs s)"
  from c have ne: "?n \<noteq> c" by simp
  have fields: "keeps c l0 S s'" if "keeps c l0 S s1" "sigs s' = sigs s1" "refs_ok s'" for s1 s'
    using that by (rule keeps_env)
  show ?thesis
  proof (cases op)
    case NewController
    have "keeps c l0 S (hold ?n (alloc s))"
      by (rule fields [OF keeps_alloc [OF k]])
         (use k wf_alloc [of s] in \<open>auto simp: hold_def keeps_def wf_state_def refs_ok_def\<close>)
    with NewController show ?thesis by (simp add: new_controller_alloc)
  next
    case (ControllerAbort c' r)
    show ?thesis
    proof (cases "c' \<in> set (controllers s)")
      case True
      with av ControllerAbort have "c' \<noteq> c" by auto
      from keeps_abort_controller [OF k this] ControllerAbort True show ?thesis by simp
    next
      case False
      with ControllerAbort k show ?thesis by simp
    qed
  next
    case (Timeout ms)
    have "keeps c l0 S ((alloc s)\<lparr>timers := timers s @ [(now s + timer_delay ms, ?n, ms)]\<rparr>)"
      by (rule fields [OF keeps_alloc [OF k]])
         (use k wf_alloc [of s] env_fields(3) [OF env_alloc [of s]]
           in \<open>auto simp: keeps_def wf_state_def refs_ok_def\<close>)
    with Timeout show ?thesis by (simp add: timeout_eq)
  next
    case (Any xs)
    have "keeps c l0 S (any_loop ?n (AnyOnAbort ?n xs) xs (alloc s))"
      by (rule keeps_any_loop [OF keeps_alloc [OF k]]) (use ne in simp_all)
    with Any k show ?thesis by (simp add: any_eq)
  next
    case (ManageLifecycle t sg cb)
    let ?l = "LifecycleListener (nextSymbol s) cb sg"
    let ?s0 = "s\<lparr>nextSymbol := Suc (nextSymbol s)\<rparr>"
    let ?s1 = "add_listener sg ?l True ?s0"
    have k0: "keeps c l0 S ?s0"
      by (rule fields [OF k]) (use k in \<open>simp_all add: keeps_def wf_state_def refs_ok_fields\<close>)
    have k1: "keeps c l0 S ?s1"
      by (rule keeps_add_listener [OF k0]) simp
    have r: "registry ?s1 = registry s"
      using env_fields(6) [OF env_add_listener [of sg ?l True ?s0]] by simp
    have k2: "keeps c l0 S (?s1\<lparr>registry := registry s @ [(t, nextSymbol s, nextSymbol s, sg, ?l)]\<rparr>)"
      by (rule fields [OF k1]) (use k1 r in \<open>auto simp: keeps_def wf_state_def refs_ok_def\<close>)
    have k3: "keeps c l0 S (s\<lparr>calls := calls s @ [(cb, reason_of s sg)]\<rparr>)"
      by (rule fields [OF k]) (use k in \<open>simp_all add: keeps_def wf_state_def refs_ok_fields\<close>)
    from k k2 k3 ManageLifecycle show ?thesis by (simp add: manageLifecycle_eq)
  next
    case (Follow p)
    have h: "keeps c l0 S (hold ?n s')" if "keeps c l0 S s'" "?n < length (sigs s')" for s'
      by (rule fields [OF that(1)])
         (use that in \<open>auto simp: hold_def keeps_def wf_state_def refs_ok_def\<close>)
    have a: "keeps c l0 S (abort_controller ?n (reason_of s p) (alloc s))"
      by (rule keeps_abort_controller [OF keeps_alloc [OF k] ne])
    have b: "keeps c l0 S (add_listener p (FollowOnAbort ?n p) True (alloc s))"
      by (rule keeps_add_listener [OF keeps_alloc [OF k]]) (use ne in simp)
    from h [OF a] h [OF b] Follow k show ?thesis by (simp add: follow_eq)
  next
    case (FromEvent t n)
    have "keeps c l0 S ((alloc s)\<lparr>tlisteners := tlisteners s @ [(t, n, ?n, True)]\<rparr>)"
      by (rule fields [OF keeps_alloc [OF k]])
         (use k wf_alloc [of s] env_fields(5) [OF env_alloc [of s]]
           in \<open>auto simp: keeps_def wf_state_def refs_ok_def\<close>)
    with FromEvent show ?thesis by (simp add: fromEvent_eq)
  next
    case Never
    have "keeps c l0 S ((alloc s)\<lparr>neverSignal := Some ?n\<rparr>)"
      by (rule fields [OF keeps_alloc [OF k]])
         (use k wf_alloc [of s] in \<open>simp_all add: keeps_def wf_state_def refs_ok_fields\<close>)
    with Never k show ?thesis by (simp add: never_eq split: option.splits)
  next
    case (Dispatch t n ev)
    with keeps_dispatch [OF k] av show ?thesis by simp
  next
    case (Advance t)
    with keeps_advance [OF k] av show ?thesis by simp
  next
    case (Collect t)
    with keeps_collect [OF k] show ?thesis by simp
  qed
qed

subsection \<open>Controllers that the program cannot reach\<close>

text \<open>
  \<open>sealed c\<close>: the calling code does not hold \<open>c\<close>, and no timer and no listener of an
  event target aborts it.
\<close>

definition sealed :: "sid \<Rightarrow> state \<Rightarrow> bool" where
  "sealed c s \<longleftrightarrow>
     c \<notin> set (controllers s) \<and> (\<forall>e \<in> set (timers s). fst (snd e) \<noteq> c) \<and>
     (\<forall>e \<in> set (tlisteners s). fst (snd (snd e)) \<noteq> c)"

lemma sealed_avoids: "sealed c s \<Longrightarrow> avoids c op s"
  by (cases op) (auto simp: sealed_def)

lemma sealed_env: "sealed c s \<Longrightarrow> env s' = env s \<Longrightarrow> sealed c s'"
  using env_fields [of s' s] by (simp add: sealed_def)

lemma env_any_loop [simp]: "env (any_loop c l xs s) = env s"
  by (induction xs arbitrary: s) simp_all

lemma sealed_abort_controller: "sealed c s \<Longrightarrow> sealed c (abort_controller c' r s)"
  by (erule sealed_env) simp

lemma sealed_dispatch: "sealed c s \<Longrightarrow> sealed c (dispatch t n ev s)"
  unfolding dispatch_def
proof (rule fold_invariant)
  fix e s' assume s: "sealed c s'"
  then have "sealed c (s'\<lparr>tlisteners := filter (\<lambda>e'. e' \<noteq> e) (tlisteners s')\<rparr>)"
    by (auto simp: sealed_def)
  with s show "sealed c (fire_listener ev e s')"
    by (simp add: fire_listener_def sealed_abort_controller)
qed

lemma sealed_advance: "sealed c s \<Longrightarrow> sealed c (advance t s)"
  unfolding advance_def
proof (rule fold_invariant)
  assume "sealed c s"
  then show "sealed c (s\<lparr>now := now s + t, timers := filter (\<lambda>e. \<not> fst e \<le> now s + t) (timers s)\<rparr>)"
    by (auto simp: sealed_def)
next
  fix e s' assume "sealed c s'"
  then show "sealed c ((\<lambda>(due, controller, milliseconds). timeout_callback controller milliseconds) e s')"
    by (cases e) (simp add: timeout_callback_def sealed_abort_controller)
qed

lemma sealed_collect: "sealed c s \<Longrightarrow> sealed c (collect t s)"
  unfolding collect_def
proof (rule fold_invariant)
  assume "sealed c s"
  then show "sealed c (s\<lparr>registry := filter (\<lambda>e. fst e \<noteq> t) (registry s)\<rparr>)"
    by (auto simp: sealed_def)
next
  fix e s' assume "sealed c s'"
  from sealed_env [OF this]
  show "sealed c ((\<lambda>(t, held, cleanupId, signal, eventListener).
      registry_callback cleanupId signal eventListener held) e s')"
    by (cases e) (simp add: registry_callback_def)
qed

lemma sealed_step:
  assumes "sealed c s" "c < length (sigs s)"
  shows "sealed c (step op s)"
proof (cases op)
  case NewController
  with assms show ?thesis
    using env_fields [OF env_alloc [of s]]
    by (auto simp: new_controller_alloc sealed_def hold_def)
next
  case (ControllerAbort c' r)
  with assms sealed_env [OF assms(1), of "abort_controller c' r s"] show ?thesis by simp
next
  case (Timeout ms)
  with assms show ?thesis
    using env_fields [OF env_alloc [of s]] by (auto simp: timeout_eq sealed_def)
next
  case (Any xs)
  with assms sealed_env [OF assms(1), of "any_loop (length (sigs s)) (AnyOnAbort (length (sigs s)) xs) xs (alloc s)"]
  show ?thesis by (simp add: any_eq)
next
  case (ManageLifecycle t sg cb)
  let ?l = "LifecycleListener (nextSymbol s) cb sg"
  let ?s1 = "add_listener sg ?l True (s\<lparr>nextSymbol := Suc (nextSymbol s)\<rparr>)"
  from assms(1) have "sealed c (s\<lparr>nextSymbol := Suc (nextSymbol s)\<rparr>)" by (simp add: sealed_def)
  from sealed_env [OF this, of ?s1] have "sealed c ?s1" by simp
  then have "sealed c (?s1\<lparr>registry := registry s @ [(t, nextSymbol s, nextSymbol s, sg, ?l)]\<rparr>)"
    by (simp add: sealed_def)
  moreover from assms(1) have "sealed c (s\<lparr>calls := calls s @ [(cb, reason_of s sg)]\<rparr>)"
    by (simp add: sealed_def)
  ultimately show ?thesis using ManageLifecycle assms(1) by (simp add: manageLifecycle_eq)
next
  case (Follow p)
  let ?n = "length (sigs s)"
  have h: "sealed c (hold ?n s')" if "env s' = env s" for s'
    using sealed_env [OF assms(1) that] assms(2) by (auto simp: sealed_def hold_def)
  have "sealed c (hold ?n (abort_controller ?n (reason_of s p) (alloc s)))"
    "sealed c (hold ?n (add_listener p (FollowOnAbort ?n p) True (alloc s)))"
    by (rule h, simp)+
  with Follow assms(1) show ?thesis by (simp add: follow_eq)
next
  case (FromEvent t n)
  with assms show ?thesis
    using env_fields [OF env_alloc [of s]] by (auto simp: fromEvent_eq sealed_def)
next
  case Never
  from sealed_env [OF assms(1) env_alloc]
  have "sealed c ((alloc s)\<lparr>neverSignal := Some (length (sigs s))\<rparr>)" by (simp add: sealed_def)
  with Never assms(1) show ?thesis by (simp add: never_eq split: option.splits)
next
  case (Dispatch t n ev)
  with assms(1) show ?thesis by (simp add: sealed_dispatch)
next
  case (Advance t)
  with assms(1) show ?thesis by (simp add: sealed_advance)
next
  case (Collect t)
  with assms(1) show ?thesis by (simp add: sealed_collect)
qed

text \<open>
  \<open>guarded\<close>: a controller that is sealed and that only the listener \<open>l0\<close> on the signals
  of \<open>S\<close> can abort. This is kept by every operation.
\<close>

definition guarded :: "sid \<Rightarrow> listener \<Rightarrow> sid set \<Rightarrow> state \<Rightarrow> bool" where
  "guarded c l0 S s \<longleftrightarrow> keeps c l0 S s \<and> sealed c s"

lemma guarded_step: "guarded c l0 S s \<Longrightarrow> guarded c l0 S (step op s)"
  unfolding guarded_def
  using keeps_step [of c l0 S s op] sealed_avoids [of c s op] sealed_step [of c s op]
  by (simp add: keeps_def linked_heap)

lemma guarded_run: "guarded c l0 S s \<Longrightarrow> guarded c l0 S (run ops s)"
  unfolding run_def by (rule fold_invariant) (simp_all add: guarded_step)

lemma guarded_iff:
  assumes "guarded c l0 S s"
  shows "is_aborted s c \<longleftrightarrow> (\<exists>x \<in> S. is_aborted s x)"
proof -
  from assms have li: "linked c l0 S s []" by (simp add: guarded_def keeps_def)
  from linked_heapD(5) [OF li] linked_heapD(6) [OF li] show ?thesis by blast
qed

text \<open>A controller that has just been created is referred to by nothing.\<close>

lemma fresh_unreferenced:
  assumes "wf_state s"
  shows "sealed (length (sigs s)) (alloc s)"
    and "\<And>x l. l \<in> fst ` set (listeners_of (alloc s) x) \<Longrightarrow> target_of l \<noteq> Some (length (sigs s))"
proof -
  from assms have r: "refs_ok s" and v: "valid_targets s"
    by (simp_all add: wf_state_def config_ok_def)
  from r env_fields [OF env_alloc [of s]] show "sealed (length (sigs s)) (alloc s)"
    by (fastforce simp: sealed_def refs_ok_def)
  show "target_of l \<noteq> Some (length (sigs s))" if "l \<in> fst ` set (listeners_of (alloc s) x)" for x l
  proof
    assume "target_of l = Some (length (sigs s))"
    with v that have "length (sigs s) < length (sigs s)"
      unfolding valid_targets_def by (simp del: image_iff) blast
    then show False by simp
  qed
qed

lemma not_aborted_beyond: "length (sigs s) \<le> c \<Longrightarrow> \<not> is_aborted s c"
  by (simp add: is_aborted_def)

lemma any_loop_unaborted:
  "\<forall>x \<in> set xs. \<not> is_aborted s x \<Longrightarrow>
   any_loop c l xs s = fold (\<lambda>x. add_listener x l False) xs s"
  by (induction xs arbitrary: s) simp_all

lemma listeners_of_fold_add:
  "l' \<in> fst ` set (listeners_of (fold (\<lambda>x. add_listener x l b) xs s) y) \<longleftrightarrow>
     l' \<in> fst ` set (listeners_of s y) \<or> (l' = l \<and> y \<in> set xs \<and> y < length (sigs s))"
proof (induction xs arbitrary: s)
  case Nil
  show ?case by simp
next
  case (Cons x xs)
  have "l' \<in> fst ` set (listeners_of (add_listener x l b s) y) \<longleftrightarrow>
      l' \<in> fst ` set (listeners_of s y) \<or> (l' = l \<and> y = x \<and> y < length (sigs s))"
    by (auto simp: listeners_of_add_listener)
  with Cons [of "add_listener x l b s"] show ?case by auto
qed

lemma is_aborted_fold_add [simp]:
  "is_aborted (fold (\<lambda>x. add_listener x l b) xs s) y = is_aborted s y"
  by (induction xs arbitrary: s) simp_all

lemma length_fold_add [simp]:
  "length (sigs (fold (\<lambda>x. add_listener x l b) xs s)) = length (sigs s)"
  by (induction xs arbitrary: s) simp_all

text \<open>What \<open>any\<close> sets up when none of its inputs is aborted.\<close>

lemma guarded_any:
  assumes w: "wf_state s" and v: "\<forall>x \<in> set xs. x < length (sigs s) \<and> \<not> is_aborted s x"
    and a: "any xs s = (c, s1)"
  shows "guarded c (AnyOnAbort c xs) (set xs) s1"
proof -
  let ?l = "AnyOnAbort c xs"
  from a have c: "c = length (sigs s)"
    and s1: "s1 = any_loop c ?l xs (alloc s)"
    by (auto simp: any_eq)
  from v have "\<forall>x \<in> set xs. \<not> is_aborted (alloc s) x" by simp
  from any_loop_unaborted [OF this] s1
  have s1': "s1 = fold (\<lambda>x. add_listener x ?l False) xs (alloc s)" by simp
  have nc: "\<not> is_aborted s1 c" unfolding s1' c by (simp add: not_aborted_beyond)
  have li: "linked c ?l (set xs) s1 []"
  proof (rule linked_heapI)
    show "c < length (sigs s1)" unfolding s1' c by simp
    show "target_of ?l = Some c" by simp
    show "\<forall>x \<in> set xs. reads x ?l = x" by simp
  next
    fix x l assume r: "l \<in> fst ` set (listeners_of s1 x)" and t: "target_of l = Some c"
    from r have "l \<in> fst ` set (listeners_of (alloc s) x) \<or> (l = ?l \<and> x \<in> set xs)"
      unfolding s1' listeners_of_fold_add by blast
    with fresh_unreferenced(2) [OF w, of l x] t c show "l = ?l \<and> x \<in> set xs" by auto
  next
    fix x assume x: "x \<in> set xs"
    with v have "x < length (sigs (alloc s))" "\<not> is_aborted s x" by auto
    with x show "?l \<in> fst ` set (listeners_of s1 x) \<and> \<not> is_aborted s1 x"
      unfolding s1' listeners_of_fold_add by simp
  qed (use nc in simp_all)
  from wf_step [OF w, of "Any xs"] v a have "wf_state s1" by simp
  moreover have "env s1 = env (alloc s)" unfolding s1 by simp
  with fresh_unreferenced(1) [OF w] have "sealed c s1" unfolding c by (rule sealed_env)
  ultimately show ?thesis using li by (simp add: guarded_def keeps_def)
qed

text \<open>What \<open>never\<close> sets up at its first call.\<close>

lemma guarded_never:
  assumes w: "wf_state s" and n: "neverSignal s = None" and a: "never s = (c, s1)"
  shows "guarded c (AnyOnAbort c []) {} s1"
proof -
  let ?l = "AnyOnAbort c []"
  from a n have c: "c = length (sigs s)" and s1: "s1 = (alloc s)\<lparr>neverSignal := Some c\<rparr>"
    by (auto simp: never_eq)
  have nc: "\<not> is_aborted s1 c" unfolding s1 c by (simp add: not_aborted_beyond)
  have li: "linked c ?l {} s1 []"
  proof (rule linked_heapI)
    show "c < length (sigs s1)" unfolding s1 c by simp
  next
    fix x l assume r: "l \<in> fst ` set (listeners_of s1 x)" and t: "target_of l = Some c"
    with fresh_unreferenced(2) [OF w, of l x] c show "l = ?l \<and> x \<in> {}" by (simp add: s1)
  qed (use nc in simp_all)
  from wf_step [OF w, of Never] a have "wf_state s1" by simp
  moreover have "sealed c s1"
    using fresh_unreferenced(1) [OF w] by (simp add: s1 c sealed_def)
  ultimately show ?thesis using li by (simp add: guarded_def keeps_def)
qed

subsection \<open>The cached signal of \<open>never\<close>\<close>

lemma neverSignal_dispatch [simp]: "neverSignal (dispatch t n ev s) = neverSignal s"
  unfolding dispatch_def
  by (rule fold_invariant [where P = "\<lambda>s'. neverSignal s' = neverSignal s"])
     (use env_fields(2) [OF env_abort_controller] in \<open>simp_all add: fire_listener_def\<close>)

lemma neverSignal_advance [simp]: "neverSignal (advance t s) = neverSignal s"
  unfolding advance_def
  by (rule fold_invariant [where P = "\<lambda>s'. neverSignal s' = neverSignal s"])
     (use env_fields(2) [OF env_abort_controller] in \<open>auto simp: timeout_callback_def\<close>)

lemma neverSignal_collect [simp]: "neverSignal (collect t s) = neverSignal s"
  unfolding collect_def
  by (rule fold_invariant [where P = "\<lambda>s'. neverSignal s' = neverSignal s"])
     (use env_fields(2) [OF env_remove_listener] in \<open>auto simp: registry_callback_def\<close>)

lemma neverSignal_step:
  "neverSignal (step op s) =
     (if op = Never \<and> neverSignal s = None then Some (length (sigs s)) else neverSignal s)"
proof (cases op)
  case NewController
  then show ?thesis
    using env_fields(2) [OF env_alloc [of s]] by (simp add: new_controller_alloc hold_def)
next
  case (ControllerAbort c r)
  then show ?thesis using env_fields(2) [OF env_abort_controller [of c r s]] by simp
next
  case (Timeout ms)
  then show ?thesis using env_fields(2) [OF env_alloc [of s]] by (simp add: timeout_eq)
next
  case (Any xs)
  then show ?thesis
    using env_fields(2) [OF env_any_loop [of "length (sigs s)" "AnyOnAbort (length (sigs s)) xs" xs "alloc s"]]
      env_fields(2) [OF env_alloc [of s]]
    by (simp add: any_eq)
next
  case (ManageLifecycle t sg cb)
  then show ?thesis
    using env_fields(2) [OF env_add_listener [of sg "LifecycleListener (nextSymbol s) cb sg" True
        "s\<lparr>nextSymbol := Suc (nextSymbol s)\<rparr>"]]
    by (simp add: manageLifecycle_eq env_def)
next
  case (Follow p)
  then show ?thesis
    using env_fields(2) [OF env_abort_controller [of "length (sigs s)" "reason_of s p" "alloc s"]]
      env_fields(2) [OF env_add_listener [of p "FollowOnAbort (length (sigs s)) p" True "alloc s"]]
      env_fields(2) [OF env_alloc [of s]]
    by (simp add: follow_eq hold_def)
next
  case (FromEvent t n)
  then show ?thesis using env_fields(2) [OF env_alloc [of s]] by (simp add: fromEvent_eq)
next
  case Never
  then show ?thesis by (simp add: never_eq split: option.splits)
qed simp_all

definition never_ok :: "state \<Rightarrow> bool" where
  "never_ok s \<longleftrightarrow> wf_state s \<and> (\<forall>n. neverSignal s = Some n \<longrightarrow> guarded n (AnyOnAbort n []) {} s)"

lemma never_ok_step:
  assumes "never_ok s"
  shows "never_ok (step op s)"
proof -
  from assms have w: "wf_state s" by (simp add: never_ok_def)
  have "guarded n (AnyOnAbort n []) {} (step op s)" if n: "neverSignal (step op s) = Some n" for n
  proof (cases "neverSignal s")
    case None
    with n have op: "op = Never" and "n = length (sigs s)"
      by (simp_all add: neverSignal_step split: if_splits)
    with None have "never s = (n, step op s)" by (simp add: never_eq)
    from guarded_never [OF w None this] show ?thesis .
  next
    case (Some m)
    with n have "m = n" by (simp add: neverSignal_step)
    with Some assms have "guarded n (AnyOnAbort n []) {} s" by (simp add: never_ok_def)
    then show ?thesis by (rule guarded_step)
  qed
  with wf_step [OF w] show ?thesis by (simp add: never_ok_def)
qed

lemma never_ok_init: "never_ok init_state"
  using wf_init by (simp add: never_ok_def) (simp add: init_state_def)

lemma never_ok_reachable: "never_ok (run ops init_state)"
  unfolding run_def
  by (rule fold_invariant) (simp_all add: never_ok_step never_ok_init)

lemma neverSignal_run: "neverSignal s = Some n \<Longrightarrow> neverSignal (run ops s) = Some n"
  unfolding run_def
  by (rule fold_invariant) (simp_all add: neverSignal_step)

subsection \<open>Timers, event listeners and the clock after an operation\<close>

definition tl_kept :: "nat \<Rightarrow> string \<Rightarrow> state \<Rightarrow> state \<Rightarrow> bool" where
  "tl_kept t n s s' \<longleftrightarrow>
     controllers s' = controllers s \<and> timers s' = timers s \<and> now s' = now s \<and>
     set (tlisteners s') \<subseteq> set (tlisteners s) \<and>
     (\<forall>e \<in> set (tlisteners s). \<not> (fst e = t \<and> fst (snd e) = n) \<longrightarrow> e \<in> set (tlisteners s'))"

lemma tl_kept_fire:
  assumes "tl_kept t n s s'" "fst e = t \<and> fst (snd e) = n"
  shows "tl_kept t n s (fire_listener ev e s')"
proof -
  let ?s0 = "if snd (snd (snd e)) then s'\<lparr>tlisteners := filter (\<lambda>e'. e' \<noteq> e) (tlisteners s')\<rparr> else s'"
  let ?s1 = "abort_controller (fst (snd (snd e))) ev ?s0"
  have "env ?s1 = env ?s0" by simp
  from env_fields [OF this]
  have "controllers ?s1 = controllers s'" "timers ?s1 = timers s'" "now ?s1 = now s'"
    "tlisteners ?s1 = tlisteners ?s0"
    by simp_all
  with assms have "tl_kept t n s ?s1" unfolding tl_kept_def by auto
  with assms(1) show ?thesis by (simp add: fire_listener_def)
qed

lemma env_dispatch: "tl_kept t n s (dispatch t n ev s)"
  unfolding dispatch_def
  by (rule fold_invariant) (simp_all add: tl_kept_fire, simp add: tl_kept_def)

lemma env_advance:
  "env (advance t s) =
     env (s\<lparr>now := now s + t, timers := filter (\<lambda>e. \<not> fst e \<le> now s + t) (timers s)\<rparr>)"
  unfolding advance_def
  by (rule fold_invariant [where P = "\<lambda>s'. env s' =
        env (s\<lparr>now := now s + t, timers := filter (\<lambda>e. \<not> fst e \<le> now s + t) (timers s)\<rparr>)"])
     (auto simp: timeout_callback_def)

lemma env_collect:
  "env (collect t s) = env (s\<lparr>registry := filter (\<lambda>e. fst e \<noteq> t) (registry s)\<rparr>)"
  unfolding collect_def
  by (rule fold_invariant [where P = "\<lambda>s'. env s' =
        env (s\<lparr>registry := filter (\<lambda>e. fst e \<noteq> t) (registry s)\<rparr>)"])
     (auto simp: registry_callback_def)

lemma env_manageLifecycle:
  "controllers (manageLifecycle t sg cb s) = controllers s"
  "timers (manageLifecycle t sg cb s) = timers s"
  "tlisteners (manageLifecycle t sg cb s) = tlisteners s"
  "now (manageLifecycle t sg cb s) = now s"
  using env_fields [OF env_add_listener [of sg "LifecycleListener (nextSymbol s) cb sg" True
        "s\<lparr>nextSymbol := Suc (nextSymbol s)\<rparr>"]]
  by (simp_all add: manageLifecycle_eq)

lemma env_follow: "env (snd (follow p s)) = env s"
  by (simp add: follow_eq)

lemma env_any: "env (snd (any xs s)) = env s"
  by (simp add: any_eq)

text \<open>The part of the state outside the signals, after each operation.\<close>

lemma step_env_cases:
  obtains (same) "timers (step op s) = timers s" "now (step op s) = now s"
      "tlisteners (step op s) = tlisteners s"
  | (timeout) ms where "op = Timeout ms"
      "timers (step op s) = timers s @ [(now s + timer_delay ms, length (sigs s), ms)]"
      "now (step op s) = now s" "tlisteners (step op s) = tlisteners s"
  | (fromEvent) t n where "op = FromEvent t n" "timers (step op s) = timers s"
      "now (step op s) = now s"
      "tlisteners (step op s) = tlisteners s @ [(t, n, length (sigs s), True)]"
  | (dispatch) t n ev where "op = Dispatch t n ev" "tl_kept t n s (step op s)"
  | (advance) t where "op = Advance t"
      "timers (step op s) = filter (\<lambda>e. \<not> fst e \<le> now s + t) (timers s)"
      "now (step op s) = now s + t" "tlisteners (step op s) = tlisteners s"
proof (cases op)
  case NewController
  then show ?thesis
    using env_fields [OF env_alloc [of s]] same by (simp add: new_controller_alloc hold_def)
next
  case (ControllerAbort c r)
  then show ?thesis using env_fields [OF env_abort_controller [of c r s]] same by simp
next
  case (Timeout ms)
  then show ?thesis using env_fields [OF env_alloc [of s]] timeout [of ms] by (simp add: timeout_eq)
next
  case (Any xs)
  then show ?thesis using env_fields [OF env_any [of xs s]] same by simp
next
  case (ManageLifecycle t sg cb)
  then show ?thesis using same by (simp add: env_manageLifecycle)
next
  case (Follow p)
  obtain c s1 where f: "follow p s = (c, s1)" by (cases "follow p s")
  with env_fields [OF env_follow [of p s]]
  have "timers s1 = timers s" "now s1 = now s" "tlisteners s1 = tlisteners s" by simp_all
  with Follow f same show ?thesis by (simp add: hold_def)
next
  case (FromEvent t n)
  then show ?thesis
    using env_fields [OF env_alloc [of s]] fromEvent [of t n] by (simp add: fromEvent_eq)
next
  case Never
  then show ?thesis
    using env_fields [OF env_alloc [of s]] same by (simp add: never_eq split: option.splits)
next
  case (Dispatch t n ev)
  then show ?thesis using env_dispatch [of t n s ev] dispatch [of t n ev] by simp
next
  case (Advance t)
  then show ?thesis using env_fields [OF env_advance [of t s]] advance [of t] by simp
next
  case (Collect t)
  then show ?thesis using env_fields [OF env_collect [of t s]] same by simp
qed

lemma now_mono: "now s \<le> now (step op s)"
  by (rule step_env_cases [of op s]) (simp_all add: tl_kept_def)

text \<open>\<open>unscheduled c\<close>: no timer and no listener of an event target aborts \<open>c\<close>.\<close>

definition unscheduled :: "sid \<Rightarrow> state \<Rightarrow> bool" where
  "unscheduled c s \<longleftrightarrow>
     (\<forall>e \<in> set (timers s). fst (snd e) \<noteq> c) \<and> (\<forall>e \<in> set (tlisteners s). fst (snd (snd e)) \<noteq> c)"

lemma unscheduled_step:
  assumes "unscheduled c s" "c < length (sigs s)"
  shows "unscheduled c (step op s)"
  by (rule step_env_cases [of op s])
     (use assms in \<open>auto simp: unscheduled_def tl_kept_def\<close>)

lemma sealed_unscheduled: "sealed c s \<Longrightarrow> unscheduled c s"
  by (simp add: sealed_def unscheduled_def)

subsection \<open>A controller that the caller holds but does not abort\<close>

lemma unscheduled_avoids:
  "unscheduled c s \<Longrightarrow> \<forall>r. op \<noteq> ControllerAbort c r \<Longrightarrow> avoids c op s"
  by (cases op) (auto simp: unscheduled_def)

lemma loose_run:
  assumes "keeps c l0 S s" "unscheduled c s" "\<forall>r. ControllerAbort c r \<notin> set ops"
  shows "keeps c l0 S (run ops s) \<and> unscheduled c (run ops s)"
  using assms
proof (induction ops arbitrary: s)
  case Nil
  then show ?case by (simp add: run_def)
next
  case (Cons op ops)
  from Cons.prems(3) have o: "\<forall>r. op \<noteq> ControllerAbort c r"
    and r: "\<forall>r. ControllerAbort c r \<notin> set ops" by auto
  from Cons.prems(1) have c: "c < length (sigs s)" by (simp add: keeps_def linked_heap)
  have "keeps c l0 S (step op s)"
    by (rule keeps_step [OF Cons.prems(1) unscheduled_avoids [OF Cons.prems(2) o]])
  moreover have "unscheduled c (step op s)"
    by (rule unscheduled_step [OF Cons.prems(2) c])
  ultimately have "keeps c l0 S (run ops (step op s)) \<and> unscheduled c (run ops (step op s))"
    using r by (rule Cons.IH)
  then show ?case by (simp add: run_def)
qed

text \<open>What \<open>follow\<close> sets up when the parent is not aborted.\<close>

lemma keeps_follow:
  assumes w: "wf_state s" and p: "p < length (sigs s)" and na: "\<not> is_aborted s p"
    and f: "follow p s = (c, s1)"
  shows "keeps c (FollowOnAbort c p) {p} (hold c s1)" "unscheduled c (hold c s1)"
proof -
  let ?l = "FollowOnAbort c p"
  from f na have c: "c = length (sigs s)" and s1: "s1 = add_listener p ?l True (alloc s)"
    by (auto simp: follow_eq)
  have nc: "\<not> is_aborted s1 c" unfolding s1 c by (simp add: not_aborted_beyond)
  have li: "linked c ?l {p} s1 []"
  proof (rule linked_heapI)
    show "c < length (sigs s1)" unfolding s1 c by simp
    show "target_of ?l = Some c" by simp
    show "\<forall>x \<in> {p}. reads x ?l = x" by simp
  next
    fix x l assume r: "l \<in> fst ` set (listeners_of s1 x)" and t: "target_of l = Some c"
    from r have "l \<in> fst ` set (listeners_of (alloc s) x) \<or> (l = ?l \<and> x = p)"
      unfolding s1 by (auto simp: listeners_of_add_listener split: if_splits)
    with fresh_unreferenced(2) [OF w, of l x] t c show "l = ?l \<and> x \<in> {p}" by auto
  next
    fix x assume "x \<in> {p}"
    with p na show "?l \<in> fst ` set (listeners_of s1 x) \<and> \<not> is_aborted s1 x"
      unfolding s1 by (auto simp: listeners_of_add_listener)
  qed (use nc in simp_all)
  from wf_step [OF w, of "Follow p"] p f have "wf_state (hold c s1)" by simp
  with li show "keeps c ?l {p} (hold c s1)" by (simp add: keeps_def)
  have "env s1 = env (alloc s)" unfolding s1 by simp
  with sealed_unscheduled [OF fresh_unreferenced(1) [OF w]] c
  show "unscheduled c (hold c s1)"
    using env_fields [of s1 "alloc s"] by (simp add: unscheduled_def hold_def)
qed

lemma reachable_defined:
  "is_aborted (run pre init_state) x \<Longrightarrow> reason_of (run pre init_state) x \<noteq> Undefined"
  using wf_reachable [of pre] by (simp add: wf_state_def config_ok_heap)

subsection \<open>Controllers that a timer or an event listener aborts\<close>

lemma unheld_step:
  assumes "c \<notin> set (controllers s)" "c < length (sigs s)"
  shows "c \<notin> set (controllers (step op s))"
proof (cases op)
  case NewController
  with assms show ?thesis
    using env_fields(1) [OF env_alloc [of s]] by (simp add: new_controller_alloc hold_def)
next
  case (ControllerAbort c' r)
  with assms show ?thesis using env_fields(1) [OF env_abort_controller [of c' r s]] by simp
next
  case (Timeout ms)
  with assms show ?thesis using env_fields(1) [OF env_alloc [of s]] by (simp add: timeout_eq)
next
  case (Any xs)
  with assms show ?thesis using env_fields(1) [OF env_any [of xs s]] by simp
next
  case (ManageLifecycle t sg cb)
  with assms show ?thesis by (simp add: env_manageLifecycle)
next
  case (Follow p)
  obtain c' s1 where f: "follow p s = (c', s1)" by (cases "follow p s")
  then have "c' = length (sigs s)" by (simp add: follow_eq)
  with Follow f assms env_fields(1) [OF env_follow [of p s]] show ?thesis
    by (simp add: hold_def)
next
  case (FromEvent t n)
  with assms show ?thesis using env_fields(1) [OF env_alloc [of s]] by (simp add: fromEvent_eq)
next
  case Never
  with assms show ?thesis
    using env_fields(1) [OF env_alloc [of s]] by (simp add: never_eq split: option.splits)
next
  case (Dispatch t n ev)
  with assms show ?thesis using env_dispatch [of t n s ev] by (simp add: tl_kept_def)
next
  case (Advance t)
  with assms show ?thesis using env_fields(1) [OF env_advance [of t s]] by simp
next
  case (Collect t)
  with assms show ?thesis using env_fields(1) [OF env_collect [of t s]] by simp
qed

text \<open>
  A fold reaches a property \<open>Q\<close> if one element of the list establishes it from an
  invariant \<open>P\<close> of the elements before, and the elements after keep it.
\<close>

lemma fold_reaches:
  assumes "e \<in> set xs" "P s"
    and "\<And>x s. x \<in> set xs \<Longrightarrow> x \<noteq> e \<Longrightarrow> P s \<Longrightarrow> P (f x s)"
    and "\<And>s. P s \<Longrightarrow> Q (f e s)"
    and "\<And>x s. x \<in> set xs \<Longrightarrow> Q s \<Longrightarrow> Q (f x s)"
  shows "Q (fold f xs s)"
  using assms
proof (induction xs arbitrary: s)
  case Nil
  then show ?case by simp
next
  case (Cons x xs)
  show ?case
  proof (cases "x = e")
    case True
    from Cons.prems(4) [OF Cons.prems(2)] True have "Q (f x s)" by simp
    then have "Q (fold f xs (f x s))"
      by (rule fold_invariant) (simp add: Cons.prems(5))
    then show ?thesis by simp
  next
    case False
    with Cons.prems(1) have "e \<in> set xs" by simp
    moreover from Cons.prems(3) [of x s] False Cons.prems(2) have "P (f x s)" by simp
    ultimately have "Q (fold f xs (f x s))"
      by (rule Cons.IH) (simp_all add: Cons.prems(3,4,5))
    then show ?thesis by simp
  qed
qed

text \<open>
  \<open>lone c\<close>: nothing but a timer or an event listener can abort \<open>c\<close>, which is therefore
  not aborted: no listener on a signal aborts it, and the calling code does not hold it.
\<close>

definition lone :: "sid \<Rightarrow> state \<Rightarrow> bool" where
  "lone c s \<longleftrightarrow> keeps c (AnyOnAbort c []) {} s \<and> c \<notin> set (controllers s)"

lemma lone_unaborted: "lone c s \<Longrightarrow> c < length (sigs s) \<and> \<not> is_aborted s c"
  using linked_heapD(1) [of c "AnyOnAbort c []" "{}" s] linked_heapD(6) [of c "AnyOnAbort c []" "{}" s]
  by (auto simp: lone_def keeps_def)

lemma lone_step: "lone c s \<Longrightarrow> avoids c op s \<Longrightarrow> lone c (step op s)"
  using keeps_step [of c "AnyOnAbort c []" "{}" s op] unheld_step [of c s op] lone_unaborted [of c s]
  by (simp add: lone_def)

lemma lone_abort_controller: "lone c s \<Longrightarrow> c' \<noteq> c \<Longrightarrow> lone c (abort_controller c' r s)"
  using keeps_abort_controller [of c "AnyOnAbort c []" "{}" s c' r]
    env_fields(1) [OF env_abort_controller [of c' r s]]
  by (simp add: lone_def)

lemma lone_env:
  assumes "lone c s" "sigs s' = sigs s" "refs_ok s'" "controllers s' = controllers s"
  shows "lone c s'"
  using assms keeps_env [of c "AnyOnAbort c []" "{}" s s'] by (simp add: lone_def)

lemma lone_fresh:
  assumes "wf_state s" "wf_state s'" "sigs s' = sigs (alloc s)" "controllers s' = controllers s"
  shows "lone (length (sigs s)) s'"
proof -
  let ?c = "length (sigs s)"
  have nc: "\<not> is_aborted s' ?c"
    using same_sigs(1) [OF assms(3)] by (simp add: not_aborted_beyond)
  have "linked ?c (AnyOnAbort ?c []) {} s' []"
  proof (rule linked_heapI)
    show "?c < length (sigs s')" using assms(3) by simp
  next
    fix x l assume r: "l \<in> fst ` set (listeners_of s' x)" and t: "target_of l = Some ?c"
    from r same_sigs(3) [OF assms(3)] have "l \<in> fst ` set (listeners_of (alloc s) x)" by simp
    with fresh_unreferenced(2) [OF assms(1), of l x] t
    show "l = AnyOnAbort ?c [] \<and> x \<in> {}" by simp
  qed (use nc in simp_all)
  moreover from assms(1) have "?c \<notin> set (controllers s)"
    by (auto simp: wf_state_def refs_ok_def)
  ultimately show ?thesis using assms(2,4) by (simp add: lone_def keeps_def)
qed

text \<open>
  \<open>listening c e0\<close>: the only thing that can abort \<open>c\<close> is the event listener \<open>e0\<close>, and it
  is registered.
\<close>

definition listening :: "sid \<Rightarrow> nat \<times> string \<times> sid \<times> bool \<Rightarrow> state \<Rightarrow> bool" where
  "listening c e0 s \<longleftrightarrow>
     lone c s \<and> (\<forall>e \<in> set (timers s). fst (snd e) \<noteq> c) \<and> e0 \<in> set (tlisteners s) \<and>
     (\<forall>e \<in> set (tlisteners s). fst (snd (snd e)) = c \<longrightarrow> e = e0)"

lemma listeningI:
  "lone c s \<Longrightarrow> \<forall>e \<in> set (timers s). fst (snd e) \<noteq> c \<Longrightarrow> e0 \<in> set (tlisteners s) \<Longrightarrow>
   \<forall>e \<in> set (tlisteners s). fst (snd (snd e)) = c \<longrightarrow> e = e0 \<Longrightarrow> listening c e0 s"
  by (simp add: listening_def)

lemma listeningD:
  assumes "listening c e0 s"
  shows "lone c s" "\<forall>e \<in> set (timers s). fst (snd e) \<noteq> c" "e0 \<in> set (tlisteners s)"
    "\<forall>e \<in> set (tlisteners s). fst (snd (snd e)) = c \<longrightarrow> e = e0"
  using assms by (simp_all add: listening_def)

lemma listening_step:
  assumes l: "listening c (t, n, c, b) s" and o: "\<forall>ev. op \<noteq> Dispatch t n ev"
  shows "listening c (t, n, c, b) (step op s)"
proof -
  let ?e0 = "(t, n, c, b)"
  note lo = listeningD(1) [OF l] and ti = listeningD(2) [OF l]
    and reg = listeningD(3) [OF l] and only = listeningD(4) [OF l]
  from lone_unaborted [OF lo] have c: "c < length (sigs s)" by simp
  have other: "fst (snd (snd e)) \<noteq> c"
    if "e \<in> set (tlisteners s)" "\<not> (fst e = t \<and> fst (snd e) = n)" for e
  proof
    assume "fst (snd (snd e)) = c"
    with only that(1) have "e = ?e0" by blast
    with that(2) show False by simp
  qed
  have av: "avoids c op s"
  proof (cases op)
    case (ControllerAbort c' r)
    with lo show ?thesis by (simp add: lone_def)
  next
    case (Advance t')
    with ti show ?thesis by simp
  next
    case (Dispatch t' n' ev)
    with o have "\<not> (t' = t \<and> n' = n)" by blast
    then have "fst (snd (snd e)) \<noteq> c"
      if "e \<in> set (tlisteners s)" "fst e = t'" "fst (snd e) = n'" for e
      using other [of e] that by blast
    with Dispatch show ?thesis by simp
  qed simp_all
  note lo' = lone_step [OF lo av]
  have fin: "listening c ?e0 (step op s)"
    if "\<forall>e \<in> set (timers (step op s)). fst (snd e) \<noteq> c"
      "?e0 \<in> set (tlisteners (step op s))"
      "\<forall>e \<in> set (tlisteners (step op s)). fst (snd (snd e)) = c \<longrightarrow> e = ?e0"
    using lo' that by (rule listeningI)
  show ?thesis
  proof (rule step_env_cases [of op s])
    assume a: "timers (step op s) = timers s" "tlisteners (step op s) = tlisteners s"
    show ?thesis by (rule fin; unfold a; (rule ti | rule reg | rule only))
  next
    fix ms assume a: "timers (step op s) = timers s @ [(now s + timer_delay ms, length (sigs s), ms)]"
      "tlisteners (step op s) = tlisteners s"
    have ti': "\<forall>e \<in> set (timers s @ [(now s + timer_delay ms, length (sigs s), ms)]). fst (snd e) \<noteq> c"
    proof
      fix e assume "e \<in> set (timers s @ [(now s + timer_delay ms, length (sigs s), ms)])"
      then consider "e \<in> set (timers s)" | "e = (now s + timer_delay ms, length (sigs s), ms)" by auto
      then show "fst (snd e) \<noteq> c"
      proof cases
        case 1
        with ti show ?thesis by blast
      next
        case 2
        with c show ?thesis by simp
      qed
    qed
    show ?thesis by (rule fin; unfold a; (rule ti' | rule reg | rule only))
  next
    fix t' n' assume a: "timers (step op s) = timers s"
      "tlisteners (step op s) = tlisteners s @ [(t', n', length (sigs s), True)]"
    have only': "\<forall>e \<in> set (tlisteners s @ [(t', n', length (sigs s), True)]).
        fst (snd (snd e)) = c \<longrightarrow> e = ?e0"
    proof
      fix e assume "e \<in> set (tlisteners s @ [(t', n', length (sigs s), True)])"
      then consider "e \<in> set (tlisteners s)" | "e = (t', n', length (sigs s), True)" by auto
      then show "fst (snd (snd e)) = c \<longrightarrow> e = ?e0"
      proof cases
        case 1
        with only show ?thesis by blast
      next
        case 2
        with c show ?thesis by simp
      qed
    qed
    from reg have reg': "?e0 \<in> set (tlisteners s @ [(t', n', length (sigs s), True)])"
      by simp
    show ?thesis by (rule fin; unfold a; (rule ti | rule reg' | rule only'))
  next
    fix t' n' ev assume d: "op = Dispatch t' n' ev" and k: "tl_kept t' n' s (step op s)"
    from d o have ne: "\<not> (t' = t \<and> n' = n)" by blast
    from k have k1: "timers (step op s) = timers s"
      and k2: "set (tlisteners (step op s)) \<subseteq> set (tlisteners s)"
      and k3: "\<forall>e \<in> set (tlisteners s). \<not> (fst e = t' \<and> fst (snd e) = n') \<longrightarrow>
          e \<in> set (tlisteners (step op s))"
      by (simp_all add: tl_kept_def)
    from ne have "\<not> (fst ?e0 = t' \<and> fst (snd ?e0) = n')" by auto
    with k3 reg have reg': "?e0 \<in> set (tlisteners (step op s))" by blast
    from k2 only
    have only': "\<forall>e \<in> set (tlisteners (step op s)). fst (snd (snd e)) = c \<longrightarrow> e = ?e0"
      by blast
    from ti have ti': "\<forall>e \<in> set (timers (step op s)). fst (snd e) \<noteq> c"
      unfolding k1 .
    show ?thesis by (rule fin [OF ti' reg' only'])
  next
    fix t' assume a: "timers (step op s) = filter (\<lambda>e. \<not> fst e \<le> now s + t') (timers s)"
      "tlisteners (step op s) = tlisteners s"
    from ti have ti': "\<forall>e \<in> set (filter (\<lambda>e. \<not> fst e \<le> now s + t') (timers s)). fst (snd e) \<noteq> c"
      by simp
    show ?thesis by (rule fin; unfold a; (rule ti' | rule reg | rule only))
  qed
qed

lemma listening_run:
  assumes "listening c (t, n, c, b) s" "\<forall>ev. Dispatch t n ev \<notin> set ops"
  shows "listening c (t, n, c, b) (run ops s)"
  using assms
proof (induction ops arbitrary: s)
  case Nil
  then show ?case by (simp add: run_def)
next
  case (Cons op ops)
  from Cons.prems(2) have "\<forall>ev. op \<noteq> Dispatch t n ev" "\<forall>ev. Dispatch t n ev \<notin> set ops"
    by auto
  from Cons.IH [OF listening_step [OF Cons.prems(1) this(1)] this(2)]
  show ?case by (simp add: run_def)
qed

text \<open>What \<open>fromEvent\<close> sets up.\<close>

lemma listening_fromEvent:
  assumes w: "wf_state s" and f: "fromEvent t n s = (c, s1)"
  shows "listening c (t, n, c, True) s1"
proof -
  let ?n = "length (sigs s)"
  from f have c: "c = ?n"
    and s1: "s1 = (alloc s)\<lparr>tlisteners := tlisteners s @ [(t, n, ?n, True)]\<rparr>"
    by (auto simp: fromEvent_eq)
  from wf_step [OF w, of "FromEvent t n"] f have w1: "wf_state s1" by simp
  have tl: "tlisteners s1 = tlisteners s @ [(t, n, ?n, True)]" by (simp add: s1)
  have tm: "timers s1 = timers s"
    using env_fields(3) [OF env_alloc [of s]] by (simp add: s1)
  have co: "controllers s1 = controllers s"
    using env_fields(1) [OF env_alloc [of s]] by (simp add: s1)
  have sg: "sigs s1 = sigs (alloc s)" by (simp add: s1)
  from w have r: "\<forall>e \<in> set (timers s). fst (snd e) < ?n"
    "\<forall>e \<in> set (tlisteners s). fst (snd (snd e)) < ?n"
    by (simp_all add: wf_state_def refs_ok_def)
  have 1: "lone ?n s1" by (rule lone_fresh [OF w w1 sg co])
  have 2: "\<forall>e \<in> set (timers s1). fst (snd e) \<noteq> ?n"
    unfolding tm using r(1) by fastforce
  have 3: "(t, n, ?n, True) \<in> set (tlisteners s1)" unfolding tl by simp
  have 4: "\<forall>e \<in> set (tlisteners s1). fst (snd (snd e)) = ?n \<longrightarrow> e = (t, n, ?n, True)"
  proof
    fix e assume "e \<in> set (tlisteners s1)"
    then consider "e \<in> set (tlisteners s)" | "e = (t, n, ?n, True)" unfolding tl by auto
    then show "fst (snd (snd e)) = ?n \<longrightarrow> e = (t, n, ?n, True)"
    proof cases
      case 1
      with r(2) show ?thesis by fastforce
    next
      case 2
      then show ?thesis by simp
    qed
  qed
  from listeningI [OF 1 2 3 4] show ?thesis unfolding c .
qed

text \<open>The event fires.\<close>

definition waiting :: "sid \<Rightarrow> nat \<times> string \<times> sid \<times> bool \<Rightarrow> state \<Rightarrow> bool" where
  "waiting c e0 s \<longleftrightarrow>
     wf_state s \<and> lone c s \<and> e0 \<in> set (tlisteners s) \<and>
     (\<forall>e \<in> set (tlisteners s). fst (snd (snd e)) = c \<longrightarrow> e = e0)"

definition fired :: "sid \<Rightarrow> val \<Rightarrow> nat \<times> string \<times> sid \<times> bool \<Rightarrow> state \<Rightarrow> bool" where
  "fired c r e0 s \<longleftrightarrow> settled c r s \<and> e0 \<notin> set (tlisteners s)"

definition unlisten :: "nat \<times> string \<times> sid \<times> bool \<Rightarrow> state \<Rightarrow> state" where
  "unlisten e s = (if snd (snd (snd e)) then s\<lparr>tlisteners := filter (\<lambda>e'. e' \<noteq> e) (tlisteners s)\<rparr> else s)"

lemma fire_listener_eq:
  "fire_listener ev e s =
     (if e \<in> set (tlisteners s) then abort_controller (fst (snd (snd e))) ev (unlisten e s) else s)"
  by (simp add: fire_listener_def unlisten_def)

lemma unlisten_simps [simp]:
  "sigs (unlisten e s) = sigs s" "controllers (unlisten e s) = controllers s"
  "timers (unlisten e s) = timers s" "registry (unlisten e s) = registry s"
  by (simp_all add: unlisten_def)

lemma tlisteners_unlisten:
  "set (tlisteners (unlisten e s)) \<subseteq> set (tlisteners s)"
  "e' \<in> set (tlisteners s) \<Longrightarrow> e' \<noteq> e \<Longrightarrow> e' \<in> set (tlisteners (unlisten e s))"
  "snd (snd (snd e)) \<Longrightarrow> e \<notin> set (tlisteners (unlisten e s))"
  by (auto simp: unlisten_def)

lemma tlisteners_abort_controller [simp]:
  "tlisteners (abort_controller c r s) = tlisteners s"
  using env_fields(5) [OF env_abort_controller [of c r s]] .

lemma wf_unlisten: "wf_state s \<Longrightarrow> wf_state (unlisten e s)"
proof -
  assume w: "wf_state s"
  have "config_ok (unlisten e s) [] = config_ok s []"
    using same_sigs [of "unlisten e s" s] by (simp add: config_ok_heap)
  moreover have "refs_ok (unlisten e s)"
    using w tlisteners_unlisten(1) [of e s] unfolding wf_state_def refs_ok_def unlisten_simps
    by blast
  ultimately show ?thesis using w by (simp add: wf_state_def)
qed

lemma waiting_other:
  assumes p: "waiting c e0 s" and ne: "x \<noteq> e0"
  shows "waiting c e0 (fire_listener ev x s)"
proof (cases "x \<in> set (tlisteners s)")
  case False
  with p show ?thesis by (simp add: fire_listener_eq)
next
  case True
  from p have w: "wf_state s" and lo: "lone c s" and reg: "e0 \<in> set (tlisteners s)"
    and only: "\<forall>e \<in> set (tlisteners s). fst (snd (snd e)) = c \<longrightarrow> e = e0"
    by (simp_all add: waiting_def)
  from only True ne have tc: "fst (snd (snd x)) \<noteq> c" by blast
  let ?s0 = "unlisten x s" and ?s1 = "abort_controller (fst (snd (snd x))) ev (unlisten x s)"
  note w0 = wf_unlisten [OF w, of x]
  have l0: "lone c ?s0"
    by (rule lone_env [OF lo]) (use w0 in \<open>simp_all add: wf_state_def\<close>)
  from tlisteners_unlisten(2) [OF reg ne [symmetric]] have r1: "e0 \<in> set (tlisteners ?s1)" by simp
  from tlisteners_unlisten(1) [of x s] only
  have o1: "\<forall>e \<in> set (tlisteners ?s1). fst (snd (snd e)) = c \<longrightarrow> e = e0" by auto
  from wf_abort_controller [OF w0] lone_abort_controller [OF l0 tc] r1 o1
  have "waiting c e0 ?s1" unfolding waiting_def by (intro conjI)
  with True show ?thesis by (simp add: fire_listener_eq)
qed

lemma waiting_fire:
  assumes p: "waiting c e0 s" and e0: "fst (snd (snd e0)) = c" "snd (snd (snd e0))"
  shows "fired c (stored_reason ev) e0 (fire_listener ev e0 s)"
proof -
  from p have lo: "lone c s" and reg: "e0 \<in> set (tlisteners s)"
    by (simp_all add: waiting_def)
  from lone_unaborted [OF lo] have "c < length (sigs (unlisten e0 s))"
    "\<not> is_aborted (unlisten e0 s) c"
    using same_sigs(1) [of "unlisten e0 s" s] by simp_all
  from abort_controller_aborts [OF this, of ev]
  have "settled c (stored_reason ev) (abort_controller c ev (unlisten e0 s))"
    by (simp add: settled_def)
  moreover from tlisteners_unlisten(3) [OF e0(2), of s]
  have "e0 \<notin> set (tlisteners (abort_controller c ev (unlisten e0 s)))" by simp
  ultimately show ?thesis using reg e0(1) by (simp add: fired_def fire_listener_eq)
qed

lemma fired_keep:
  assumes "fired c r e0 s"
  shows "fired c r e0 (fire_listener ev x s)"
proof -
  from assms have a: "settled c r s" and b: "e0 \<notin> set (tlisteners s)"
    by (simp_all add: fired_def)
  from a have "settled c r (unlisten x s)"
    using same_sigs [of "unlisten x s" s] by (simp add: settled_def)
  then have "settled c r (abort_controller (fst (snd (snd x))) ev (unlisten x s))"
    by (rule settled_abort_controller)
  moreover from b tlisteners_unlisten(1) [of x s]
  have "e0 \<notin> set (tlisteners (abort_controller (fst (snd (snd x))) ev (unlisten x s)))"
    by auto
  ultimately show ?thesis using a b by (simp add: fired_def fire_listener_eq)
qed

lemma dispatch_fires:
  assumes l: "listening c (t, n, c, True) s"
  shows "settled c (stored_reason ev) (dispatch t n ev s) \<and>
         (t, n, c, True) \<notin> set (tlisteners (dispatch t n ev s))"
proof -
  let ?e0 = "(t, n, c, True)"
  note lo = listeningD(1) [OF l] and reg = listeningD(3) [OF l] and only = listeningD(4) [OF l]
  from lo have w: "wf_state s" by (simp add: lone_def keeps_def)
  from w lo reg only have p: "waiting c ?e0 s" unfolding waiting_def by (intro conjI)
  from reg have m: "?e0 \<in> set (filter (\<lambda>e. fst e = t \<and> fst (snd e) = n) (tlisteners s))"
    by simp
  have "fired c (stored_reason ev) ?e0
      (fold (fire_listener ev) (filter (\<lambda>e. fst e = t \<and> fst (snd e) = n) (tlisteners s)) s)"
    using m p
  proof (rule fold_reaches [where P = "waiting c ?e0"])
    fix x s' assume "x \<noteq> ?e0" "waiting c ?e0 s'"
    then show "waiting c ?e0 (fire_listener ev x s')" by (rule waiting_other [rotated])
  next
    fix s' assume "waiting c ?e0 s'"
    then show "fired c (stored_reason ev) ?e0 (fire_listener ev ?e0 s')"
      by (rule waiting_fire) simp_all
  next
    fix x s' assume "fired c (stored_reason ev) ?e0 s'"
    then show "fired c (stored_reason ev) ?e0 (fire_listener ev x s')" by (rule fired_keep)
  qed
  then show ?thesis by (simp add: fired_def dispatch_def)
qed

subsection \<open>The signal of \<open>timeout\<close>\<close>

definition timeout_reason :: "safe_integer \<Rightarrow> val" where
  "timeout_reason ms =
     TimeoutError (Some (''Signal timed out after '' @ number_toString ms @ ''ms''))"

lemma timeout_reason_defined [simp]: "stored_reason (timeout_reason ms) = timeout_reason ms"
  by (simp add: timeout_reason_def TimeoutError_def)

definition due_timers :: "nat \<Rightarrow> state \<Rightarrow> (nat \<times> sid \<times> safe_integer) list" where
  "due_timers t s = sort_key fst (filter (\<lambda>e. fst e \<le> now s + t) (timers s))"

definition tick :: "nat \<Rightarrow> state \<Rightarrow> state" where
  "tick t s = s\<lparr>now := now s + t, timers := filter (\<lambda>e. \<not> fst e \<le> now s + t) (timers s)\<rparr>"

lemma advance_eq:
  "advance t s =
     fold (\<lambda>e. abort_controller (fst (snd e)) (timeout_reason (snd (snd e))))
       (due_timers t s) (tick t s)"
proof -
  have h: "(\<lambda>(due, controller, milliseconds). timeout_callback controller milliseconds)
      = (\<lambda>e. abort_controller (fst (snd e)) (timeout_reason (snd (snd e))))"
    by (simp add: fun_eq_iff timeout_callback_def timeout_reason_def)
  show ?thesis unfolding advance_def due_timers_def tick_def h ..
qed

lemma set_due_timers: "set (due_timers t s) = {e \<in> set (timers s). fst e \<le> now s + t}"
  by (simp add: due_timers_def)

lemma tick_simps [simp]:
  "sigs (tick t s) = sigs s" "controllers (tick t s) = controllers s"
  "tlisteners (tick t s) = tlisteners s" "registry (tick t s) = registry s"
  "now (tick t s) = now s + t"
  by (simp_all add: tick_def)

lemma timers_tick: "set (timers (tick t s)) \<subseteq> set (timers s)"
  by (auto simp: tick_def)

lemma wf_tick: "wf_state s \<Longrightarrow> wf_state (tick t s)"
proof -
  assume w: "wf_state s"
  have "config_ok (tick t s) [] = config_ok s []"
    using same_sigs [of "tick t s" s] by (simp add: config_ok_heap)
  moreover have "refs_ok (tick t s)"
    using w timers_tick [of t s] unfolding wf_state_def refs_ok_def tick_simps by blast
  ultimately show ?thesis using w by (simp add: wf_state_def)
qed

text \<open>
  \<open>ticking c e0\<close>: the only thing that can abort \<open>c\<close> is the timer \<open>e0\<close>, and it is
  pending.
\<close>

definition ticking :: "sid \<Rightarrow> nat \<times> sid \<times> safe_integer \<Rightarrow> state \<Rightarrow> bool" where
  "ticking c e0 s \<longleftrightarrow>
     lone c s \<and> (\<forall>e \<in> set (tlisteners s). fst (snd (snd e)) \<noteq> c) \<and> e0 \<in> set (timers s) \<and>
     (\<forall>e \<in> set (timers s). fst (snd e) = c \<longrightarrow> e = e0)"

lemma tickingI:
  "lone c s \<Longrightarrow> \<forall>e \<in> set (tlisteners s). fst (snd (snd e)) \<noteq> c \<Longrightarrow> e0 \<in> set (timers s) \<Longrightarrow>
   \<forall>e \<in> set (timers s). fst (snd e) = c \<longrightarrow> e = e0 \<Longrightarrow> ticking c e0 s"
  by (simp add: ticking_def)

lemma tickingD:
  assumes "ticking c e0 s"
  shows "lone c s" "\<forall>e \<in> set (tlisteners s). fst (snd (snd e)) \<noteq> c" "e0 \<in> set (timers s)"
    "\<forall>e \<in> set (timers s). fst (snd e) = c \<longrightarrow> e = e0"
  using assms by (simp_all add: ticking_def)

lemma advance_fires:
  assumes l: "ticking c e0 s" and e0: "fst (snd e0) = c" and d: "fst e0 \<le> now s + t"
  shows "settled c (timeout_reason (snd (snd e0))) (advance t s)"
  unfolding advance_eq
proof (rule fold_reaches [where e = e0 and P = "\<lambda>s'. wf_state s' \<and> lone c s'"])
  note lo = tickingD(1) [OF l] and reg = tickingD(3) [OF l] and only = tickingD(4) [OF l]
  from reg d show "e0 \<in> set (due_timers t s)" by (simp add: set_due_timers)
  from lo have w: "wf_state s" by (simp add: lone_def keeps_def)
  have "lone c (tick t s)"
    by (rule lone_env [OF lo]) (use wf_tick [OF w, of t] in \<open>simp_all add: wf_state_def\<close>)
  with wf_tick [OF w] show "wf_state (tick t s) \<and> lone c (tick t s)" by simp
next
  fix x s' assume x: "x \<in> set (due_timers t s)" "x \<noteq> e0" and p: "wf_state s' \<and> lone c s'"
  from x(1) have "x \<in> set (timers s)" by (simp add: set_due_timers)
  with tickingD(4) [OF l] x(2) have "fst (snd x) \<noteq> c" by blast
  with p wf_abort_controller lone_abort_controller
  show "wf_state (abort_controller (fst (snd x)) (timeout_reason (snd (snd x))) s') \<and>
      lone c (abort_controller (fst (snd x)) (timeout_reason (snd (snd x))) s')"
    by simp
next
  fix s' assume "wf_state s' \<and> lone c s'"
  with lone_unaborted [of c s'] have "c < length (sigs s')" "\<not> is_aborted s' c" by simp_all
  from abort_controller_aborts [OF this, of "timeout_reason (snd (snd e0))"] e0
  show "settled c (timeout_reason (snd (snd e0)))
      (abort_controller (fst (snd e0)) (timeout_reason (snd (snd e0))) s')"
    by (simp add: settled_def)
next
  fix x s' assume "settled c (timeout_reason (snd (snd e0))) s'"
  then show "settled c (timeout_reason (snd (snd e0)))
      (abort_controller (fst (snd x)) (timeout_reason (snd (snd x))) s')"
    by (rule settled_abort_controller)
qed

lemma ticking_step:
  assumes l: "ticking c e0 s" and o: "\<forall>t. op = Advance t \<longrightarrow> \<not> fst e0 \<le> now s + t"
  shows "ticking c e0 (step op s)"
proof -
  note lo = tickingD(1) [OF l] and tl = tickingD(2) [OF l]
    and reg = tickingD(3) [OF l] and only = tickingD(4) [OF l]
  from lone_unaborted [OF lo] have c: "c < length (sigs s)" by simp
  have av: "avoids c op s"
  proof (cases op)
    case (ControllerAbort c' r)
    with lo show ?thesis by (simp add: lone_def)
  next
    case (Advance t')
    with o have nd: "\<not> fst e0 \<le> now s + t'" by simp
    have "fst (snd e) \<noteq> c" if "e \<in> set (timers s)" "fst e \<le> now s + t'" for e
    proof
      assume "fst (snd e) = c"
      with only that(1) have "e = e0" by blast
      with that(2) nd show False by simp
    qed
    with Advance show ?thesis by simp
  next
    case (Dispatch t' n' ev)
    with tl show ?thesis by simp
  qed simp_all
  note lo' = lone_step [OF lo av]
  have fin: "ticking c e0 (step op s)"
    if "\<forall>e \<in> set (tlisteners (step op s)). fst (snd (snd e)) \<noteq> c"
      "e0 \<in> set (timers (step op s))"
      "\<forall>e \<in> set (timers (step op s)). fst (snd e) = c \<longrightarrow> e = e0"
    using lo' that by (rule tickingI)
  show ?thesis
  proof (rule step_env_cases [of op s])
    assume a: "timers (step op s) = timers s" "tlisteners (step op s) = tlisteners s"
    show ?thesis by (rule fin; unfold a; (rule tl | rule reg | rule only))
  next
    fix ms assume a: "timers (step op s) = timers s @ [(now s + timer_delay ms, length (sigs s), ms)]"
      "tlisteners (step op s) = tlisteners s"
    have only': "\<forall>e \<in> set (timers s @ [(now s + timer_delay ms, length (sigs s), ms)]).
        fst (snd e) = c \<longrightarrow> e = e0"
    proof
      fix e assume "e \<in> set (timers s @ [(now s + timer_delay ms, length (sigs s), ms)])"
      then consider "e \<in> set (timers s)" | "e = (now s + timer_delay ms, length (sigs s), ms)" by auto
      then show "fst (snd e) = c \<longrightarrow> e = e0"
      proof cases
        case 1
        with only show ?thesis by blast
      next
        case 2
        with c show ?thesis by simp
      qed
    qed
    from reg have reg': "e0 \<in> set (timers s @ [(now s + timer_delay ms, length (sigs s), ms)])" by simp
    show ?thesis by (rule fin; unfold a; (rule tl | rule reg' | rule only'))
  next
    fix t' n' assume a: "timers (step op s) = timers s"
      "tlisteners (step op s) = tlisteners s @ [(t', n', length (sigs s), True)]"
    have tl': "\<forall>e \<in> set (tlisteners s @ [(t', n', length (sigs s), True)]).
        fst (snd (snd e)) \<noteq> c"
    proof
      fix e assume "e \<in> set (tlisteners s @ [(t', n', length (sigs s), True)])"
      then consider "e \<in> set (tlisteners s)" | "e = (t', n', length (sigs s), True)" by auto
      then show "fst (snd (snd e)) \<noteq> c"
      proof cases
        case 1
        with tl show ?thesis by blast
      next
        case 2
        with c show ?thesis by simp
      qed
    qed
    show ?thesis by (rule fin; unfold a; (rule tl' | rule reg | rule only))
  next
    fix t' n' ev assume k: "tl_kept t' n' s (step op s)"
    from k have k1: "timers (step op s) = timers s"
      and k2: "set (tlisteners (step op s)) \<subseteq> set (tlisteners s)"
      by (simp_all add: tl_kept_def)
    from k2 tl have tl': "\<forall>e \<in> set (tlisteners (step op s)). fst (snd (snd e)) \<noteq> c" by blast
    from reg only have "e0 \<in> set (timers (step op s))"
      "\<forall>e \<in> set (timers (step op s)). fst (snd e) = c \<longrightarrow> e = e0"
      unfolding k1 .
    with tl' show ?thesis by (rule fin)
  next
    fix t' assume op: "op = Advance t'"
      and a: "timers (step op s) = filter (\<lambda>e. \<not> fst e \<le> now s + t') (timers s)"
      "tlisteners (step op s) = tlisteners s"
    from op o have "\<not> fst e0 \<le> now s + t'" by simp
    with reg have reg': "e0 \<in> set (filter (\<lambda>e. \<not> fst e \<le> now s + t') (timers s))" by simp
    from only
    have only': "\<forall>e \<in> set (filter (\<lambda>e. \<not> fst e \<le> now s + t') (timers s)).
        fst (snd e) = c \<longrightarrow> e = e0"
      by simp
    show ?thesis by (rule fin; unfold a; (rule tl | rule reg' | rule only'))
  qed
qed

text \<open>
  \<open>timed\<close>: either the timer is still pending, and its due time has not come, or it has
  fired, its due time has come, and the signal carries the timeout error.
\<close>

definition timed :: "sid \<Rightarrow> nat \<times> sid \<times> safe_integer \<Rightarrow> state \<Rightarrow> bool" where
  "timed c e0 s \<longleftrightarrow>
     (ticking c e0 s \<and> now s < fst e0) \<or>
     (settled c (timeout_reason (snd (snd e0))) s \<and> fst e0 \<le> now s)"

lemma now_advance: "now (advance t s) = now s + t"
  using env_fields(4) [OF env_advance [of t s]] by simp

lemma now_step: "(\<And>t. op = Advance t \<Longrightarrow> now s + t < d) \<Longrightarrow> now s < d \<Longrightarrow> now (step op s) < d"
  by (rule step_env_cases [of op s]) (simp_all add: tl_kept_def)

lemma timed_step:
  assumes "timed c e0 s" "fst (snd e0) = c"
  shows "timed c e0 (step op s)"
proof (cases "ticking c e0 s \<and> now s < fst e0")
  case True
  then have tk: "ticking c e0 s" and nw: "now s < fst e0" by simp_all
  show ?thesis
  proof (cases "\<forall>t. op = Advance t \<longrightarrow> \<not> fst e0 \<le> now s + t")
    case True
    then have "\<And>t. op = Advance t \<Longrightarrow> now s + t < fst e0" by auto
    from now_step [OF this nw] ticking_step [OF tk True] show ?thesis by (simp add: timed_def)
  next
    case False
    then obtain t where op: "op = Advance t" and d: "fst e0 \<le> now s + t" by blast
    from advance_fires [OF tk assms(2) d] op d show ?thesis
      by (simp add: timed_def now_advance)
  qed
next
  case False
  with assms(1) have a: "settled c (timeout_reason (snd (snd e0))) s" and b: "fst e0 \<le> now s"
    by (auto simp: timed_def)
  from settled_step [OF a, of op] b now_mono [of s op] show ?thesis by (simp add: timed_def)
qed

lemma timed_run: "timed c e0 s \<Longrightarrow> fst (snd e0) = c \<Longrightarrow> timed c e0 (run ops s)"
  unfolding run_def by (rule fold_invariant) (simp_all add: timed_step)

lemma timed_aborted:
  assumes "timed c e0 s"
  shows "is_aborted s c \<longleftrightarrow> fst e0 \<le> now s"
    "is_aborted s c \<Longrightarrow> reason_of s c = timeout_reason (snd (snd e0))"
proof -
  have na: "\<not> is_aborted s c" if "ticking c e0 s"
    using tickingD(1) [OF that] lone_unaborted by blast
  from assms na show "is_aborted s c \<longleftrightarrow> fst e0 \<le> now s"
    by (auto simp: timed_def settled_def)
  from assms na show "reason_of s c = timeout_reason (snd (snd e0))" if "is_aborted s c"
    using that by (auto simp: timed_def settled_def)
qed

lemma timer_delay_positive: "0 < timer_delay d"
  by (auto simp: timer_delay_def unat_gt_0 not_less word_le_def)

text \<open>What \<open>timeout\<close> sets up.\<close>

lemma ticking_timeout:
  assumes w: "wf_state s" and f: "timeout d s = (c, s1)"
  shows "ticking c (now s + timer_delay d, c, d) s1" "now s1 = now s"
proof -
  let ?n = "length (sigs s)"
  from f have c: "c = ?n"
    and s1: "s1 = (alloc s)\<lparr>timers := timers s @ [(now s + timer_delay d, ?n, d)]\<rparr>"
    by (auto simp: timeout_eq)
  from wf_step [OF w, of "Timeout d"] f have w1: "wf_state s1" by simp
  have tm: "timers s1 = timers s @ [(now s + timer_delay d, ?n, d)]" by (simp add: s1)
  have tl: "tlisteners s1 = tlisteners s"
    using env_fields(5) [OF env_alloc [of s]] by (simp add: s1)
  have co: "controllers s1 = controllers s"
    using env_fields(1) [OF env_alloc [of s]] by (simp add: s1)
  show "now s1 = now s" using env_fields(4) [OF env_alloc [of s]] by (simp add: s1)
  have sg: "sigs s1 = sigs (alloc s)" by (simp add: s1)
  from w have r: "\<forall>e \<in> set (timers s). fst (snd e) < ?n"
    "\<forall>e \<in> set (tlisteners s). fst (snd (snd e)) < ?n"
    by (simp_all add: wf_state_def refs_ok_def)
  have 1: "lone ?n s1" by (rule lone_fresh [OF w w1 sg co])
  have 2: "\<forall>e \<in> set (tlisteners s1). fst (snd (snd e)) \<noteq> ?n"
    unfolding tl using r(2) by fastforce
  have 3: "(now s + timer_delay d, ?n, d) \<in> set (timers s1)" unfolding tm by simp
  have 4: "\<forall>e \<in> set (timers s1). fst (snd e) = ?n \<longrightarrow> e = (now s + timer_delay d, ?n, d)"
  proof
    fix e assume "e \<in> set (timers s1)"
    then consider "e \<in> set (timers s)" | "e = (now s + timer_delay d, ?n, d)" unfolding tm by auto
    then show "fst (snd e) = ?n \<longrightarrow> e = (now s + timer_delay d, ?n, d)"
    proof cases
      case 1
      with r(1) show ?thesis by fastforce
    next
      case 2
      then show ?thesis by simp
    qed
  qed
  from tickingI [OF 1 2 3 4] show "ticking c (now s + timer_delay d, c, d) s1" unfolding c .
qed

subsection \<open>The listener of \<open>manageLifecycle\<close> during delivery\<close>

fun callback_of :: "listener \<Rightarrow> nat option" where
  "callback_of (AnyOnAbort c xs) = None"
| "callback_of (LifecycleListener k cb sg) = Some cb"
| "callback_of (FollowOnAbort c p) = None"

text \<open>The invocations of the callback \<open>cb\<close> so far.\<close>

definition log_of :: "nat \<Rightarrow> state \<Rightarrow> (nat \<times> val) list" where
  "log_of cb s = filter (\<lambda>e. fst e = cb) (calls s)"

lemma step_once_removes:
  assumes "step_frame (Invoke x l) s fs = (s', fs')" "l \<in> fst ` set (listeners_of s x)"
    "(l, False) \<notin> set (listeners_of s x)"
  shows "l \<notin> fst ` set (listeners_of s' x)"
  using assms(1)
proof (cases rule: step_frame_outcomes)
  case (skip x' l')
  with assms(2) show ?thesis by simp
next
  case (cleanup l' xs)
  then show ?thesis by simp
next
  case (log x' k cb sg b)
  with assms(3) have "b" by (cases b) auto
  with log show ?thesis by (auto simp: listeners_of_unregister)
next
  case (fire x' l' b c)
  with assms(3) have "b" by (cases b) auto
  with fire show ?thesis by (auto simp: listeners_of_unregister)
next
  case (dud x' l' b c)
  with assms(3) have "b" by (cases b) auto
  with dud show ?thesis by (auto simp: listeners_of_unregister)
qed

lemma step_log_other:
  assumes st: "step_frame f s fs = (s', fs')"
    and "\<And>x l. f = Invoke x l \<Longrightarrow> l \<in> fst ` set (listeners_of s x) \<Longrightarrow> callback_of l \<noteq> Some cb"
  shows "log_of cb s' = log_of cb s"
proof (cases f)
  case (Invoke x l)
  show ?thesis
  proof (cases l)
    case (LifecycleListener k cb' sg)
    with assms(2) [of x l] Invoke
    have "LifecycleListener k cb' sg \<in> fst ` set (listeners_of s x) \<Longrightarrow> cb' \<noteq> cb" by simp
    with step_calls [OF st] Invoke LifecycleListener show ?thesis
      by (simp add: log_of_def)
  next
    case (AnyOnAbort c xs)
    with step_calls [OF st] Invoke show ?thesis by (simp add: log_of_def)
  next
    case (FollowOnAbort c p)
    with step_calls [OF st] Invoke show ?thesis by (simp add: log_of_def)
  qed
next
  case (AnyCleanup l xs)
  with step_calls [OF st] show ?thesis by (simp add: log_of_def)
qed

lemma step_log_own:
  assumes st: "step_frame (Invoke x (LifecycleListener k cb sg)) s fs = (s', fs')"
    and "LifecycleListener k cb sg \<in> fst ` set (listeners_of s x)"
  shows "log_of cb s' = log_of cb s @ [(cb, reason_of s sg)]"
  using step_calls [OF st] assms(2) by (simp add: log_of_def)

text \<open>
  \<open>only_caller\<close>: the listener \<open>l0\<close>, on the signal \<open>sg\<close>, is the only one that calls \<open>cb\<close>,
  and no \<open>cleanup\<close> is about to remove it. \<open>awaiting\<close>: \<open>l0\<close> is registered, as a \<open>once\<close>
  listener, and has not been called. \<open>called\<close>: it has been called, once, with the reason
  of the signal, and is not registered any more.
\<close>

definition only_caller :: "nat \<Rightarrow> listener \<Rightarrow> sid \<Rightarrow> state \<Rightarrow> frame list \<Rightarrow> bool" where
  "only_caller cb l0 sg s fs \<longleftrightarrow>
     (\<forall>x l. l \<in> fst ` set (listeners_of s x) \<longrightarrow> callback_of l = Some cb \<longrightarrow> l = l0 \<and> x = sg) \<and>
     (\<forall>x l. Invoke x l \<in> set fs \<longrightarrow> callback_of l = Some cb \<longrightarrow> l = l0 \<and> x = sg) \<and>
     (\<forall>xs. AnyCleanup l0 xs \<notin> set fs)"

definition awaiting :: "nat \<Rightarrow> listener \<Rightarrow> sid \<Rightarrow> (nat \<times> val) list \<Rightarrow> state \<Rightarrow> frame list \<Rightarrow> bool" where
  "awaiting cb l0 sg base s fs \<longleftrightarrow>
     l0 \<in> fst ` set (listeners_of s sg) \<and> (l0, False) \<notin> set (listeners_of s sg) \<and>
     log_of cb s = base \<and> (is_aborted s sg \<longrightarrow> Invoke sg l0 \<in> set fs)"

definition called :: "nat \<Rightarrow> listener \<Rightarrow> sid \<Rightarrow> (nat \<times> val) list \<Rightarrow> state \<Rightarrow> bool" where
  "called cb l0 sg base s \<longleftrightarrow>
     l0 \<notin> fst ` set (listeners_of s sg) \<and> is_aborted s sg \<and>
     log_of cb s = base @ [(cb, reason_of s sg)]"

lemma only_caller_heap:
  "only_caller cb l0 sg s fs \<Longrightarrow> l \<in> fst ` set (listeners_of s x) \<Longrightarrow>
   callback_of l = Some cb \<Longrightarrow> l = l0 \<and> x = sg"
  unfolding only_caller_def by blast

lemma only_caller_frame:
  "only_caller cb l0 sg s fs \<Longrightarrow> Invoke x l \<in> set fs \<Longrightarrow>
   callback_of l = Some cb \<Longrightarrow> l = l0 \<and> x = sg"
  unfolding only_caller_def by blast

lemma only_caller_cleanup: "only_caller cb l0 sg s fs \<Longrightarrow> AnyCleanup l0 xs \<notin> set fs"
  unfolding only_caller_def by blast

lemma only_caller_step:
  assumes st: "step_frame f s fs = (s', fs')" and u: "only_caller cb l0 sg s (f # fs)"
    and cb: "callback_of l0 = Some cb"
  shows "only_caller cb l0 sg s' fs'"
  unfolding only_caller_def
proof (intro conjI allI impI)
  fix x l assume a: "l \<in> fst ` set (listeners_of s' x)" and b: "callback_of l = Some cb"
  from only_caller_heap [OF u step_listener_kept [OF st a] b] show "l = l0" "x = sg" by simp_all
next
  fix x l assume a: "Invoke x l \<in> set fs'" and b: "callback_of l = Some cb"
  have "l = l0 \<and> x = sg"
  proof (cases "Invoke x l \<in> set fs")
    case True
    then have "Invoke x l \<in> set (f # fs)" by simp
    from only_caller_frame [OF u this b] show ?thesis .
  next
    case False
    from step_new_invoke [OF st a False] have "l \<in> fst ` set (listeners_of s' x)" by simp
    from only_caller_heap [OF u step_listener_kept [OF st this] b] show ?thesis .
  qed
  then show "l = l0" "x = sg" by simp_all
next
  fix xs
  show "AnyCleanup l0 xs \<notin> set fs'"
  proof
    assume a: "AnyCleanup l0 xs \<in> set fs'"
    have "AnyCleanup l0 xs \<notin> set fs" using only_caller_cleanup [OF u, of xs] by simp
    from step_new_cleanup [OF st a this] cb show False by auto
  qed
qed


definition watched :: "nat \<Rightarrow> listener \<Rightarrow> sid \<Rightarrow> (nat \<times> val) list \<Rightarrow> state \<Rightarrow> frame list \<Rightarrow> bool" where
  "watched cb l0 sg base s fs \<longleftrightarrow>
     callback_of l0 = Some cb \<and> reads sg l0 = sg \<and> only_caller cb l0 sg s fs \<and>
     (awaiting cb l0 sg base s fs \<or> called cb l0 sg base s)"

lemma lifecycle_listener:
  assumes "callback_of l0 = Some cb" "reads sg l0 = sg"
  obtains k where "l0 = LifecycleListener k cb sg"
  using assms by (cases l0) auto

lemma awaiting_step:
  assumes st: "step_frame f s fs = (s', fs')" and fo: "frames_ok s (f # fs)"
    and cb: "callback_of l0 = Some cb" and rd: "reads sg l0 = sg"
    and u: "only_caller cb l0 sg s (f # fs)" and a: "awaiting cb l0 sg base s (f # fs)"
  shows "awaiting cb l0 sg base s' fs' \<or> called cb l0 sg base s'"
proof (cases "f = Invoke sg l0")
  case True
  from a have reg: "l0 \<in> fst ` set (listeners_of s sg)"
    and once: "(l0, False) \<notin> set (listeners_of s sg)" and lg: "log_of cb s = base"
    by (simp_all add: awaiting_def)
  from cb rd obtain k where l0: "l0 = LifecycleListener k cb sg" by (rule lifecycle_listener)
  from fo True have ab: "is_aborted s sg" by (auto dest: frames_ok_invoke)
  note sa = step_stays_aborted [OF st ab]
  from st True have st': "step_frame (Invoke sg l0) s fs = (s', fs')" by simp
  have "l0 \<notin> fst ` set (listeners_of s' sg)" by (rule step_once_removes [OF st' reg once])
  moreover have "log_of cb s' = base @ [(cb, reason_of s' sg)]"
    using step_log_own [OF st' [unfolded l0] reg [unfolded l0]] lg sa by simp
  ultimately have "called cb l0 sg base s'" using sa by (simp add: called_def)
  then show ?thesis ..
next
  case False
  from a have reg: "l0 \<in> fst ` set (listeners_of s sg)"
    and once: "(l0, False) \<notin> set (listeners_of s sg)" and lg: "log_of cb s = base"
    and pend: "is_aborted s sg \<Longrightarrow> Invoke sg l0 \<in> set (f # fs)"
    by (simp_all add: awaiting_def)
  from reg obtain b where e: "(l0, b) \<in> set (listeners_of s sg)" by auto
  have kept: "(l0, b) \<in> set (listeners_of s' sg)"
  proof (rule ccontr)
    assume "(l0, b) \<notin> set (listeners_of s' sg)"
    from step_listener_lost [OF st e this] False only_caller_cleanup [OF u]
    show False by auto
  qed
  then have reg': "l0 \<in> fst ` set (listeners_of s' sg)" by force
  have once': "(l0, False) \<notin> set (listeners_of s' sg)"
    using step_listeners_subset [OF st, of sg] once by auto
  have lg': "log_of cb s' = base"
  proof -
    have "log_of cb s' = log_of cb s"
    proof (rule step_log_other [OF st])
      fix x l assume f: "f = Invoke x l" and r: "l \<in> fst ` set (listeners_of s x)"
      show "callback_of l \<noteq> Some cb"
      proof
        assume "callback_of l = Some cb"
        from only_caller_heap [OF u r this] f False show False by simp
      qed
    qed
    with lg show ?thesis by simp
  qed
  have pend': "Invoke sg l0 \<in> set fs'" if ab': "is_aborted s' sg"
  proof (cases "is_aborted s sg")
    case True
    from pend [OF True] False have "Invoke sg l0 \<in> set fs" by auto
    then show ?thesis by (rule step_frames_kept [OF st])
  next
    case na: False
    from st ab' na show ?thesis
    proof (rule step_newly_aborted)
      fix x l
      assume "\<And>l'. l' \<in> fst ` set (listeners_of s' sg) \<Longrightarrow> Invoke sg l' \<in> set fs'"
      from this [OF reg'] show ?thesis .
    qed
  qed
  from reg' once' lg' pend' have "awaiting cb l0 sg base s' fs'" by (simp add: awaiting_def)
  then show ?thesis ..
qed

lemma called_step:
  assumes st: "step_frame f s fs = (s', fs')"
    and u: "only_caller cb l0 sg s (f # fs)" and a: "called cb l0 sg base s"
  shows "called cb l0 sg base s'"
proof -
  from a have gone: "l0 \<notin> fst ` set (listeners_of s sg)" and ab: "is_aborted s sg"
    and lg: "log_of cb s = base @ [(cb, reason_of s sg)]"
    by (simp_all add: called_def)
  note sa = step_stays_aborted [OF st ab]
  have "l0 \<notin> fst ` set (listeners_of s' sg)"
    using step_listener_kept [OF st, of l0 sg] gone by blast
  moreover have "log_of cb s' = log_of cb s"
  proof (rule step_log_other [OF st])
    fix x l assume f: "f = Invoke x l" and r: "l \<in> fst ` set (listeners_of s x)"
    show "callback_of l \<noteq> Some cb"
    proof
      assume "callback_of l = Some cb"
      from only_caller_heap [OF u r this] r gone show False by simp
    qed
  qed
  ultimately show ?thesis using sa lg by (simp add: called_def)
qed

lemma watched_step:
  assumes st: "step_frame f s fs = (s', fs')" and ok: "config_ok s (f # fs)"
    and w: "watched cb l0 sg base s (f # fs)"
  shows "watched cb l0 sg base s' fs'"
proof -
  from w have cb: "callback_of l0 = Some cb" and rd: "reads sg l0 = sg"
    and u: "only_caller cb l0 sg s (f # fs)"
    and d: "awaiting cb l0 sg base s (f # fs) \<or> called cb l0 sg base s"
    by (simp_all add: watched_def)
  from ok have fo: "frames_ok s (f # fs)" by (simp add: config_ok_def)
  from d have "awaiting cb l0 sg base s' fs' \<or> called cb l0 sg base s'"
  proof
    assume "awaiting cb l0 sg base s (f # fs)"
    from awaiting_step [OF st fo cb rd u this] show ?thesis .
  next
    assume "called cb l0 sg base s"
    from called_step [OF st u this] show ?thesis ..
  qed
  with cb rd only_caller_step [OF st u cb] show ?thesis by (simp add: watched_def)
qed

lemma watched_exec:
  assumes "config_ok s fs" "watched cb l0 sg base s fs"
  shows "watched cb l0 sg base (exec s fs) []"
proof -
  have "config_ok (exec s fs) [] \<and> watched cb l0 sg base (exec s fs) []"
    by (rule exec_invariant [where J = "\<lambda>s fs. config_ok s fs \<and> watched cb l0 sg base s fs"])
       (simp_all add: assms config_ok_step watched_step)
  then show ?thesis by simp
qed

subsection \<open>The listener of \<open>manageLifecycle\<close> between the operations\<close>

text \<open>
  \<open>minded\<close>: as \<open>watched\<close>, between two operations, and only the registration of the target
  \<open>tg\<close> in a finalization registry removes the listener \<open>l0\<close>.
\<close>

definition minded :: "nat \<Rightarrow> listener \<Rightarrow> sid \<Rightarrow> nat \<Rightarrow> (nat \<times> val) list \<Rightarrow> state \<Rightarrow> bool" where
  "minded cb l0 sg tg base s \<longleftrightarrow>
     watched cb l0 sg base s [] \<and>
     (\<forall>e \<in> set (registry s). snd (snd (snd (snd e))) = l0 \<longrightarrow> fst e = tg)"

lemma watched_heap:
  "watched cb l0 sg base s [] \<longleftrightarrow>
     callback_of l0 = Some cb \<and> reads sg l0 = sg \<and>
     (\<forall>x l. l \<in> fst ` set (listeners_of s x) \<longrightarrow> callback_of l = Some cb \<longrightarrow> l = l0 \<and> x = sg) \<and>
     (l0 \<in> fst ` set (listeners_of s sg) \<and> (l0, False) \<notin> set (listeners_of s sg) \<and>
        log_of cb s = base \<and> \<not> is_aborted s sg \<or>
      l0 \<notin> fst ` set (listeners_of s sg) \<and> is_aborted s sg \<and>
        log_of cb s = base @ [(cb, reason_of s sg)])"
  by (simp add: watched_def only_caller_def awaiting_def called_def)

lemma watched_same:
  assumes "watched cb l0 sg base s []" "sigs s' = sigs s" "log_of cb s' = log_of cb s"
  shows "watched cb l0 sg base s' []"
  using assms(1) same_sigs [OF assms(2)] assms(3) by (simp add: watched_heap)

lemma watched_alloc: "watched cb l0 sg base s [] \<Longrightarrow> watched cb l0 sg base (alloc s) []"
  by (simp add: watched_heap log_of_def)

lemma watched_add_listener:
  assumes "watched cb l0 sg base s []" "callback_of l \<noteq> Some cb"
  shows "watched cb l0 sg base (add_listener x l b s) []"
proof -
  from assms have ne: "l \<noteq> l0" by (auto simp: watched_heap)
  have a: "l' \<in> fst ` set (listeners_of (add_listener x l b s) y) \<longleftrightarrow>
           l' \<in> fst ` set (listeners_of s y) \<or>
           (l' = l \<and> y = x \<and> x < length (sigs s) \<and> l \<notin> fst ` set (listeners_of s x))" for l' y
    by (auto simp: listeners_of_add_listener)
  have b: "(l0, False) \<in> set (listeners_of (add_listener x l b s) y) \<longleftrightarrow>
           (l0, False) \<in> set (listeners_of s y)" for y
    using ne by (auto simp: listeners_of_add_listener)
  have c: "log_of cb (add_listener x l b s) = log_of cb s"
    by (simp add: log_of_def add_listener_def upd_sig_def)
  from assms ne show ?thesis
    unfolding watched_heap a b c by auto
qed

lemma watched_remove_listener:
  assumes "watched cb l0 sg base s []" "l \<noteq> l0"
  shows "watched cb l0 sg base (remove_listener x l s) []"
proof -
  have a: "l' \<in> fst ` set (listeners_of (remove_listener x l s) y) \<longleftrightarrow>
           l' \<in> fst ` set (listeners_of s y) \<and> \<not> (y = x \<and> l' = l)" for l' y
    by (auto simp: listeners_of_remove_listener)
  have b: "(l0, False) \<in> set (listeners_of (remove_listener x l s) y) \<longleftrightarrow>
           (l0, False) \<in> set (listeners_of s y)" for y
    using assms(2) by (auto simp: listeners_of_remove_listener)
  have c: "log_of cb (remove_listener x l s) = log_of cb s"
    by (simp add: log_of_def)
  from assms show ?thesis
    unfolding watched_heap a b c by auto
qed

lemma watched_mark:
  assumes w: "watched cb l0 sg base s []" and c: "c < length (sigs s)" "\<not> is_aborted s c"
  shows "watched cb l0 sg base (mark c v s) (invocations s c)"
proof -
  from w have cb: "callback_of l0 = Some cb" and rd: "reads sg l0 = sg"
    and u: "\<And>x l. l \<in> fst ` set (listeners_of s x) \<Longrightarrow> callback_of l = Some cb \<Longrightarrow> l = l0 \<and> x = sg"
    and d: "l0 \<in> fst ` set (listeners_of s sg) \<and> (l0, False) \<notin> set (listeners_of s sg) \<and>
        log_of cb s = base \<and> \<not> is_aborted s sg \<or>
      l0 \<notin> fst ` set (listeners_of s sg) \<and> is_aborted s sg \<and>
        log_of cb s = base @ [(cb, reason_of s sg)]"
    by (simp_all add: watched_heap)
  have lg: "log_of cb (mark c v s) = log_of cb s" by (simp add: log_of_def)
  have inv: "Invoke x l \<in> set (invocations s c) \<longleftrightarrow> x = c \<and> l \<in> fst ` set (listeners_of s c)" for x l
    by (auto simp: invocations_def)
  have oc: "only_caller cb l0 sg (mark c v s) (invocations s c)"
    unfolding only_caller_def
  proof (intro conjI allI impI)
    fix x l assume "l \<in> fst ` set (listeners_of (mark c v s) x)" "callback_of l = Some cb"
    with u [of l x] show "l = l0" "x = sg" by simp_all
  next
    fix x l assume "Invoke x l \<in> set (invocations s c)" "callback_of l = Some cb"
    with u [of l x] show "l = l0" "x = sg" by (simp_all add: inv)
  next
    fix xs show "AnyCleanup l0 xs \<notin> set (invocations s c)" by (auto simp: invocations_def)
  qed
  from d have "awaiting cb l0 sg base (mark c v s) (invocations s c) \<or> called cb l0 sg base (mark c v s)"
  proof
    assume a: "l0 \<in> fst ` set (listeners_of s sg) \<and> (l0, False) \<notin> set (listeners_of s sg) \<and>
        log_of cb s = base \<and> \<not> is_aborted s sg"
    then have "is_aborted (mark c v s) sg \<longrightarrow> sg = c" by (cases "sg = c") simp_all
    with a have "awaiting cb l0 sg base (mark c v s) (invocations s c)"
      by (auto simp: awaiting_def lg inv)
    then show ?thesis ..
  next
    assume a: "l0 \<notin> fst ` set (listeners_of s sg) \<and> is_aborted s sg \<and>
        log_of cb s = base @ [(cb, reason_of s sg)]"
    with c have "sg \<noteq> c" by auto
    with a have "called cb l0 sg base (mark c v s)" by (simp add: called_def lg)
    then show ?thesis ..
  qed
  with cb rd oc show ?thesis by (simp add: watched_def)
qed

lemma watched_abort_controller:
  assumes "config_ok s []" "watched cb l0 sg base s []"
  shows "watched cb l0 sg base (abort_controller c r s) []"
proof (cases "c < length (sigs s) \<and> \<not> is_aborted s c")
  case True
  then have c: "c < length (sigs s)" "\<not> is_aborted s c" by simp_all
  have "config_ok (mark c (stored_reason r) s) (invocations s c)"
    by (rule config_ok_mark [OF assms(1) c(1)]) simp
  from watched_exec [OF this watched_mark [OF assms(2) c]] True show ?thesis
    by (simp add: abort_controller_eq)
next
  case False
  with assms(2) show ?thesis by (auto simp: abort_controller_eq)
qed


lemma minded_same:
  assumes "minded cb l0 sg tg base s" "sigs s' = sigs s" "log_of cb s' = log_of cb s"
    "\<And>e. e \<in> set (registry s') \<Longrightarrow> e \<in> set (registry s) \<or> snd (snd (snd (snd e))) \<noteq> l0"
  shows "minded cb l0 sg tg base s'"
  using assms watched_same [OF _ assms(2,3)] unfolding minded_def by blast

lemma minded_env:
  assumes "minded cb l0 sg tg base s" "watched cb l0 sg base s' []" "env s' = env s"
  shows "minded cb l0 sg tg base s'"
  using assms(1,2) env_fields(6) [OF assms(3)] by (simp add: minded_def)

lemma minded_abort_controller:
  "config_ok s [] \<Longrightarrow> minded cb l0 sg tg base s \<Longrightarrow> minded cb l0 sg tg base (abort_controller c r s)"
  by (rule minded_env [where s = s]) (simp_all add: minded_def watched_abort_controller)

lemma minded_alloc: "minded cb l0 sg tg base s \<Longrightarrow> minded cb l0 sg tg base (alloc s)"
  by (rule minded_env [where s = s]) (simp_all add: minded_def watched_alloc)

lemma minded_add_listener:
  "minded cb l0 sg tg base s \<Longrightarrow> callback_of l \<noteq> Some cb \<Longrightarrow>
   minded cb l0 sg tg base (add_listener x l b s)"
  by (rule minded_env [where s = s]) (simp_all add: minded_def watched_add_listener)

lemma minded_remove_listener:
  "minded cb l0 sg tg base s \<Longrightarrow> l \<noteq> l0 \<Longrightarrow> minded cb l0 sg tg base (remove_listener x l s)"
  by (rule minded_env [where s = s]) (simp_all add: minded_def watched_remove_listener)

text \<open>The invariant is stated together with the well-formedness of the state.\<close>

definition tended :: "nat \<Rightarrow> listener \<Rightarrow> sid \<Rightarrow> nat \<Rightarrow> (nat \<times> val) list \<Rightarrow> state \<Rightarrow> bool" where
  "tended cb l0 sg tg base s \<longleftrightarrow> wf_state s \<and> minded cb l0 sg tg base s"

lemma tended_abort_controller:
  "tended cb l0 sg tg base s \<Longrightarrow> tended cb l0 sg tg base (abort_controller c r s)"
  by (simp add: tended_def minded_abort_controller wf_state_def config_ok_abort_controller
        refs_ok_abort_controller)

lemma tended_alloc: "tended cb l0 sg tg base s \<Longrightarrow> tended cb l0 sg tg base (alloc s)"
  by (simp add: tended_def wf_alloc minded_alloc)

lemma tended_add_listener:
  assumes "tended cb l0 sg tg base s" "callback_of l \<noteq> Some cb"
    "case target_of l of None \<Rightarrow> True | Some c \<Rightarrow> c < length (sigs s)"
  shows "tended cb l0 sg tg base (add_listener x l b s)"
  using assms wf_add_listener [OF _ assms(3)] by (simp add: tended_def minded_add_listener)

lemma tended_remove_listener:
  "tended cb l0 sg tg base s \<Longrightarrow> l \<noteq> l0 \<Longrightarrow> tended cb l0 sg tg base (remove_listener x l s)"
  by (simp add: tended_def minded_remove_listener wf_state_def config_ok_remove_listener
        refs_ok_remove_listener)

lemma tended_same:
  assumes "tended cb l0 sg tg base s" "sigs s' = sigs s" "log_of cb s' = log_of cb s"
    "\<And>e. e \<in> set (registry s') \<Longrightarrow> e \<in> set (registry s) \<or> snd (snd (snd (snd e))) \<noteq> l0"
    "refs_ok s'"
  shows "tended cb l0 sg tg base s'"
proof -
  from same_sigs [OF assms(2)] assms(2) have "config_ok s' [] = config_ok s []"
    by (simp add: config_ok_heap)
  with assms(1,5) minded_same [OF _ assms(2,3,4)] show ?thesis
    by (simp add: tended_def wf_state_def)
qed

lemma tended_any_loop:
  assumes "tended cb l0 sg tg base s" "c < length (sigs s)" "target_of l = Some c"
  shows "tended cb l0 sg tg base (any_loop c l xs s)"
  using assms(1,2)
proof (induction xs arbitrary: s)
  case Nil
  then show ?case by simp
next
  case (Cons x xs)
  show ?case
  proof (cases "is_aborted s x")
    case True
    with Cons.prems show ?thesis by (simp add: tended_abort_controller)
  next
    case False
    from assms(3) have "callback_of l \<noteq> Some cb" by (cases l) auto
    then have "tended cb l0 sg tg base (add_listener x l False s)"
      by (rule tended_add_listener [OF Cons.prems(1)]) (use assms(3) Cons.prems(2) in simp)
    from Cons.IH [OF this] Cons.prems(2) False show ?thesis by simp
  qed
qed

lemma tended_dispatch:
  assumes "tended cb l0 sg tg base s"
  shows "tended cb l0 sg tg base (dispatch t n ev s)"
  unfolding dispatch_def
proof (rule fold_invariant)
  show "tended cb l0 sg tg base s" by fact
next
  fix e s'
  assume k: "tended cb l0 sg tg base s'"
  have "tended cb l0 sg tg base (s'\<lparr>tlisteners := filter (\<lambda>e'. e' \<noteq> e) (tlisteners s')\<rparr>)"
    by (rule tended_same [OF k])
       (use k in \<open>auto simp: tended_def wf_state_def refs_ok_def log_of_def\<close>)
  with k show "tended cb l0 sg tg base (fire_listener ev e s')"
    by (simp add: fire_listener_def tended_abort_controller)
qed

lemma tended_advance:
  assumes "tended cb l0 sg tg base s"
  shows "tended cb l0 sg tg base (advance t s)"
  unfolding advance_def
proof (rule fold_invariant)
  show "tended cb l0 sg tg base
      (s\<lparr>now := now s + t, timers := filter (\<lambda>e. \<not> fst e \<le> now s + t) (timers s)\<rparr>)"
    by (rule tended_same [OF assms(1)])
       (use assms(1) in \<open>auto simp: tended_def wf_state_def refs_ok_def log_of_def\<close>)
next
  fix e s'
  assume k: "tended cb l0 sg tg base s'"
  then show "tended cb l0 sg tg base ((\<lambda>(due, controller, milliseconds).
      timeout_callback controller milliseconds) e s')"
    by (cases e) (simp add: timeout_callback_def tended_abort_controller)
qed

lemma tended_collect:
  assumes "tended cb l0 sg tg base s" "t \<noteq> tg"
  shows "tended cb l0 sg tg base (collect t s)"
  unfolding collect_def
proof (rule fold_invariant)
  show "tended cb l0 sg tg base (s\<lparr>registry := filter (\<lambda>e. fst e \<noteq> t) (registry s)\<rparr>)"
    by (rule tended_same [OF assms(1)])
       (use assms(1) in \<open>auto simp: tended_def wf_state_def refs_ok_def log_of_def\<close>)
next
  fix e s'
  assume e: "e \<in> set (filter (\<lambda>e. fst e = t) (registry s))" and k: "tended cb l0 sg tg base s'"
  from e assms have "snd (snd (snd (snd e))) \<noteq> l0"
    by (auto simp: tended_def minded_def)
  with k show "tended cb l0 sg tg base ((\<lambda>(t, held, cleanupId, signal, eventListener).
      registry_callback cleanupId signal eventListener held) e s')"
    by (cases e) (auto simp: registry_callback_def tended_remove_listener)
qed


text \<open>
  The operations that are excluded: another \<open>manageLifecycle\<close> with the same callback, and
  the collection of the target.
\<close>

fun permits :: "nat \<Rightarrow> nat \<Rightarrow> operation \<Rightarrow> bool" where
  "permits cb tg (ManageLifecycle t sg' cb') = (cb' \<noteq> cb)"
| "permits cb tg (Collect t) = (t \<noteq> tg)"
| "permits cb tg _ = True"

lemma tended_step:
  assumes k: "tended cb l0 sg tg base s" and pm: "permits cb tg op"
  shows "tended cb l0 sg tg base (step op s)"
proof -
  let ?n = "length (sigs s)"
  have fields: "tended cb l0 sg tg base s'"
    if "tended cb l0 sg tg base s1" "sigs s' = sigs s1" "calls s' = calls s1"
      "registry s' = registry s1" "refs_ok s'" for s1 s'
    by (rule tended_same [OF that(1,2)]) (use that in \<open>simp_all add: log_of_def\<close>)
  show ?thesis
  proof (cases op)
    case NewController
    have "tended cb l0 sg tg base (hold ?n (alloc s))"
      by (rule fields [OF tended_alloc [OF k]])
         (use k wf_alloc [of s] in \<open>auto simp: hold_def tended_def wf_state_def refs_ok_def\<close>)
    with NewController show ?thesis by (simp add: new_controller_alloc)
  next
    case (ControllerAbort c' r)
    with k show ?thesis by (simp add: tended_abort_controller)
  next
    case (Timeout ms)
    have "tended cb l0 sg tg base ((alloc s)\<lparr>timers := timers s @ [(now s + timer_delay ms, ?n, ms)]\<rparr>)"
      by (rule fields [OF tended_alloc [OF k]])
         (use k wf_alloc [of s] env_fields(3) [OF env_alloc [of s]]
           in \<open>auto simp: tended_def wf_state_def refs_ok_def\<close>)
    with Timeout show ?thesis by (simp add: timeout_eq)
  next
    case (Any xs)
    have "tended cb l0 sg tg base (any_loop ?n (AnyOnAbort ?n xs) xs (alloc s))"
      by (rule tended_any_loop [OF tended_alloc [OF k]]) simp_all
    with Any k show ?thesis by (simp add: any_eq)
  next
    case (ManageLifecycle t sg' cb')
    with pm have ne: "cb' \<noteq> cb" by simp
    let ?l = "LifecycleListener (nextSymbol s) cb' sg'"
    let ?s0 = "s\<lparr>nextSymbol := Suc (nextSymbol s)\<rparr>"
    let ?s1 = "add_listener sg' ?l True ?s0"
    from k have cb: "callback_of l0 = Some cb" by (simp add: tended_def minded_def watched_heap)
    with ne have nl: "?l \<noteq> l0" by auto
    have k0: "tended cb l0 sg tg base ?s0"
      by (rule fields [OF k]) (use k in \<open>simp_all add: tended_def wf_state_def refs_ok_fields\<close>)
    have k1: "tended cb l0 sg tg base ?s1"
      by (rule tended_add_listener [OF k0]) (use ne in simp_all)
    have r: "registry ?s1 = registry s"
      using env_fields(6) [OF env_add_listener [of sg' ?l True ?s0]] by simp
    have k2: "tended cb l0 sg tg base
        (?s1\<lparr>registry := registry s @ [(t, nextSymbol s, nextSymbol s, sg', ?l)]\<rparr>)"
      by (rule tended_same [OF k1])
         (use k1 r nl in \<open>auto simp: tended_def wf_state_def refs_ok_def log_of_def\<close>)
    have k3: "tended cb l0 sg tg base (s\<lparr>calls := calls s @ [(cb', reason_of s sg')]\<rparr>)"
      by (rule tended_same [OF k])
         (use k ne in \<open>simp_all add: tended_def wf_state_def refs_ok_fields log_of_def\<close>)
    from k k2 k3 ManageLifecycle show ?thesis by (simp add: manageLifecycle_eq)
  next
    case (Follow p)
    have h: "tended cb l0 sg tg base (hold ?n s')"
      if "tended cb l0 sg tg base s'" "?n < length (sigs s')" for s'
      by (rule fields [OF that(1)])
         (use that in \<open>auto simp: hold_def tended_def wf_state_def refs_ok_def\<close>)
    have a: "tended cb l0 sg tg base (abort_controller ?n (reason_of s p) (alloc s))"
      by (rule tended_abort_controller [OF tended_alloc [OF k]])
    have b: "tended cb l0 sg tg base (add_listener p (FollowOnAbort ?n p) True (alloc s))"
      by (rule tended_add_listener [OF tended_alloc [OF k]]) simp_all
    from h [OF a] h [OF b] Follow k show ?thesis by (simp add: follow_eq)
  next
    case (FromEvent t n)
    have "tended cb l0 sg tg base ((alloc s)\<lparr>tlisteners := tlisteners s @ [(t, n, ?n, True)]\<rparr>)"
      by (rule fields [OF tended_alloc [OF k]])
         (use k wf_alloc [of s] env_fields(5) [OF env_alloc [of s]]
           in \<open>auto simp: tended_def wf_state_def refs_ok_def\<close>)
    with FromEvent show ?thesis by (simp add: fromEvent_eq)
  next
    case Never
    have "tended cb l0 sg tg base ((alloc s)\<lparr>neverSignal := Some ?n\<rparr>)"
      by (rule fields [OF tended_alloc [OF k]])
         (use k wf_alloc [of s] in \<open>simp_all add: tended_def wf_state_def refs_ok_fields\<close>)
    with Never k show ?thesis by (simp add: never_eq split: option.splits)
  next
    case (Dispatch t n ev)
    with tended_dispatch [OF k] show ?thesis by simp
  next
    case (Advance t)
    with tended_advance [OF k] show ?thesis by simp
  next
    case (Collect t)
    with tended_collect [OF k] pm show ?thesis by simp
  qed
qed

lemma tended_run:
  assumes "tended cb l0 sg tg base s" "\<And>op. op \<in> set ops \<Longrightarrow> permits cb tg op"
  shows "tended cb l0 sg tg base (run ops s)"
  unfolding run_def
  by (rule fold_invariant) (use assms in \<open>simp_all add: tended_step\<close>)

lemma permits_iff:
  "permits cb tg op \<longleftrightarrow> (\<forall>t sg'. op \<noteq> ManageLifecycle t sg' cb) \<and> op \<noteq> Collect tg"
  by (cases op) auto

text \<open>The callbacks of the listeners of \<open>manageLifecycle\<close> that a state refers to.\<close>

definition registered_callbacks :: "state \<Rightarrow> nat list" where
  "registered_callbacks s =
     List.map_filter (\<lambda>e. callback_of (fst e)) (concat (map listeners (sigs s))) @
     List.map_filter (\<lambda>e. callback_of (snd (snd (snd (snd e))))) (registry s)"

lemma in_map_filter: "x \<in> set xs \<Longrightarrow> f x = Some y \<Longrightarrow> y \<in> set (List.map_filter f xs)"
  by (force simp: List.map_filter_def)

lemma fresh_callback_heap:
  assumes "cb \<notin> set (registered_callbacks s)" "l \<in> fst ` set (listeners_of s x)"
  shows "callback_of l \<noteq> Some cb"
proof
  assume c: "callback_of l = Some cb"
  from assms(2) obtain b where e: "(l, b) \<in> set (listeners_of s x)" by auto
  then have x: "x < length (sigs s)" by (auto simp: listeners_of_def split: if_splits)
  with e have "(l, b) \<in> set (listeners (sigs s ! x))" by (simp add: listeners_of_def)
  with x have "(l, b) \<in> set (concat (map listeners (sigs s)))" by auto
  then have "cb \<in> set (List.map_filter (\<lambda>e. callback_of (fst e)) (concat (map listeners (sigs s))))"
    by (rule in_map_filter) (use c in simp)
  with assms(1) show False by (simp add: registered_callbacks_def)
qed

lemma fresh_callback_registry:
  assumes "cb \<notin> set (registered_callbacks s)" "e \<in> set (registry s)"
  shows "callback_of (snd (snd (snd (snd e)))) \<noteq> Some cb"
proof
  assume c: "callback_of (snd (snd (snd (snd e)))) = Some cb"
  from assms(2) c
  have "cb \<in> set (List.map_filter (\<lambda>e. callback_of (snd (snd (snd (snd e))))) (registry s))"
    by (rule in_map_filter)
  with assms(1) show False by (simp add: registered_callbacks_def)
qed

lemma tended_manageLifecycle:
  assumes wf: "wf_state s" and sg: "sg < length (sigs s)" and na: "\<not> is_aborted s sg"
    and fr: "cb \<notin> set (registered_callbacks s)"
  shows "tended cb (LifecycleListener (nextSymbol s) cb sg) sg tg (log_of cb s)
           (manageLifecycle tg sg cb s)"
proof -
  let ?l = "LifecycleListener (nextSymbol s) cb sg"
  let ?s0 = "s\<lparr>nextSymbol := Suc (nextSymbol s)\<rparr>"
  let ?s1 = "add_listener sg ?l True ?s0"
  let ?s2 = "?s1\<lparr>registry := registry s @ [(tg, nextSymbol s, nextSymbol s, sg, ?l)]\<rparr>"
  from na have eq: "manageLifecycle tg sg cb s = ?s2" by (simp add: manageLifecycle_eq)
  from wf_step [OF wf, of "ManageLifecycle tg sg cb"] sg have wf2: "wf_state ?s2"
    by (simp add: eq)
  have new: "?l \<notin> fst ` set (listeners_of s sg)"
    using fresh_callback_heap [OF fr, of ?l sg] by auto
  have ls: "listeners_of ?s2 x = (if x = sg then listeners_of s sg @ [(?l, True)] else listeners_of s x)" for x
    using new sg by (simp add: listeners_of_add_listener)
  have lg: "log_of cb ?s2 = log_of cb s"
    by (simp add: log_of_def add_listener_def upd_sig_def)
  have ab: "\<not> is_aborted ?s2 sg" using na by simp
  have "watched cb ?l sg (log_of cb s) ?s2 []"
    unfolding watched_heap lg
  proof (intro conjI allI impI)
    fix x l assume a: "l \<in> fst ` set (listeners_of ?s2 x)" and c: "callback_of l = Some cb"
    from a have "l \<in> fst ` set (listeners_of s x) \<or> (l = ?l \<and> x = sg)"
      unfolding ls by (auto split: if_splits)
    with fresh_callback_heap [OF fr, of l x] c show "l = ?l" "x = sg" by auto
  next
    have "?l \<in> fst ` set (listeners_of ?s2 sg)" unfolding ls by simp
    moreover have "(?l, False) \<notin> set (listeners_of ?s2 sg)"
      unfolding ls using new by force
    ultimately show "?l \<in> fst ` set (listeners_of ?s2 sg) \<and>
        (?l, False) \<notin> set (listeners_of ?s2 sg) \<and> log_of cb s = log_of cb s \<and>
        \<not> is_aborted ?s2 sg \<or>
        ?l \<notin> fst ` set (listeners_of ?s2 sg) \<and> is_aborted ?s2 sg \<and>
        log_of cb s = log_of cb s @ [(cb, reason_of ?s2 sg)]"
      using ab by blast
  qed simp_all
  moreover have "\<forall>e \<in> set (registry ?s2). snd (snd (snd (snd e))) = ?l \<longrightarrow> fst e = tg"
  proof (intro ballI impI)
    fix e assume e: "e \<in> set (registry ?s2)" and l: "snd (snd (snd (snd e))) = ?l"
    from e have "e \<in> set (registry s) \<or> e = (tg, nextSymbol s, nextSymbol s, sg, ?l)" by auto
    then show "fst e = tg"
    proof
      assume "e \<in> set (registry s)"
      from fresh_callback_registry [OF fr this] l show ?thesis by simp
    qed simp
  qed
  ultimately show ?thesis using wf2 unfolding eq tended_def minded_def by simp
qed

lemma tended_log:
  assumes "tended cb l0 sg tg base s"
  shows "log_of cb s = base @ (if is_aborted s sg then [(cb, reason_of s sg)] else [])"
  using assms by (auto simp: tended_def minded_def watched_heap)

text \<open>
  When the finalization callback of the target has run, the listener is gone, and the
  abort of the signal does not call \<open>onAbort\<close>.
\<close>

lemma collect_removes_listener:
  "\<not> is_aborted (run [NewController] init_state) 0 \<and>
   is_aborted (run [NewController, ManageLifecycle 7 0 3, Collect 7,
                    ControllerAbort 0 (Str ''Test Abort'')] init_state) 0 \<and>
   calls (run [NewController, ManageLifecycle 7 0 3, Collect 7,
               ControllerAbort 0 (Str ''Test Abort'')] init_state) = []"
  by code_simp

subsection \<open>The decimal numeral of a number\<close>

text \<open>
  What it means that a string is the duration written in decimal: it is not empty, its
  characters are digits, it has no leading zero unless it is \<open>0\<close>, and read in base ten it
  gives the number.
\<close>

definition digit_value :: "char \<Rightarrow> nat option" where
  "digit_value c = (if c \<in> set ''0123456789'' then Some (of_char c - 48) else None)"

definition read_digits :: "string \<Rightarrow> nat option" where
  "read_digits ds =
     fold (\<lambda>c acc. case acc of None \<Rightarrow> None
                   | Some a \<Rightarrow> (case digit_value c of None \<Rightarrow> None | Some v \<Rightarrow> Some (10 * a + v)))
          ds (Some 0)"

definition decimal_value :: "string \<Rightarrow> nat option" where
  "decimal_value ds =
     (if ds = [] \<or> (1 < length ds \<and> hd ds = CHR ''0'') then None else read_digits ds)"

lemma digit_value_char: "k < 10 \<Longrightarrow> digit_value (digit_char k) = Some k"
proof -
  have "\<forall>k \<in> set [0..<10]. digit_value (digit_char k) = Some k" by code_simp
  then show "k < 10 \<Longrightarrow> digit_value (digit_char k) = Some k" by simp
qed

lemma digit_char_zero: "k < 10 \<Longrightarrow> digit_char k = CHR ''0'' \<longleftrightarrow> k = 0"
proof -
  have "\<forall>k \<in> set [0..<10]. digit_char k = CHR ''0'' \<longleftrightarrow> k = 0" by code_simp
  then show "k < 10 \<Longrightarrow> digit_char k = CHR ''0'' \<longleftrightarrow> k = 0" by simp
qed

lemma read_digits_snoc:
  "read_digits (ds @ [c]) =
     (case read_digits ds of None \<Rightarrow> None
      | Some a \<Rightarrow> (case digit_value c of None \<Rightarrow> None | Some v \<Rightarrow> Some (10 * a + v)))"
  by (simp add: read_digits_def)

lemma digits_not_empty: "digits n \<noteq> []"
  by (subst digits.simps) simp

lemma hd_digits: "0 < n \<Longrightarrow> hd (digits n) \<noteq> CHR ''0''"
proof (induction n rule: digits.induct)
  case (1 n)
  show ?case
  proof (cases "n < 10")
    case True
    with "1.prems" show ?thesis by (subst digits.simps) (simp add: digit_char_zero)
  next
    case False
    then have "0 < n div 10" by simp
    from "1.IH" [OF False this] False digits_not_empty [of "n div 10"] show ?thesis
      by (subst digits.simps) simp
  qed
qed

lemma read_digits_digits: "read_digits (digits n) = Some n"
proof (induction n rule: digits.induct)
  case (1 n)
  show ?case
  proof (cases "n < 10")
    case True
    then show ?thesis
      by (subst digits.simps) (simp add: read_digits_def digit_value_char)
  next
    case False
    from "1.IH" [OF False] False show ?thesis
      by (subst digits.simps) (simp add: read_digits_snoc digit_value_char)
  qed
qed

lemma length_digits: "1 < length (digits n) \<longleftrightarrow> 10 \<le> n"
proof (cases "n < 10")
  case True
  then show ?thesis by (subst digits.simps) simp
next
  case False
  with digits_not_empty [of "n div 10"] show ?thesis
    by (subst digits.simps) (cases "digits (n div 10)", simp_all)
qed

lemma decimal_value_digits: "decimal_value (digits n) = Some n"
proof -
  have "\<not> (1 < length (digits n) \<and> hd (digits n) = CHR ''0'')"
  proof (cases "10 \<le> n")
    case True
    then have "0 < n" by simp
    from hd_digits [OF this] show ?thesis by simp
  next
    case False
    then show ?thesis unfolding length_digits by simp
  qed
  with digits_not_empty [of n] show ?thesis
    unfolding decimal_value_def by (simp only: read_digits_digits if_False simp_thms)
qed

lemma timer_delay_range:
  assumes "d \<le> 2147483647"
  shows "timer_delay d = max 1 (unat d)"
proof (cases "d < 1")
  case True
  then have "d = 0" by (simp add: word_less_1)
  then show ?thesis by (simp add: timer_delay_def)
next
  case False
  then have "1 \<le> d" by (rule leI)
  then have "1 \<le> unat d" by (simp add: word_le_nat_alt)
  moreover from assms have "\<not> 2147483647 < d" by (rule leD)
  with False have "timer_delay d = unat d"
    by (simp only: timer_delay_def simp_thms if_False)
  ultimately show ?thesis by simp
qed

section \<open>The claims\<close>

text \<open>
  C1. \<open>any\<close> on a sequence that contains an already-aborted signal returns a signal
  that is aborted with the reason of the first such input, and no listener is attached to
  any input. The loop of \<open>any\<close> registers \<open>onAbort\<close> on every signal it passes before it
  meets the aborted one, and returns without calling \<open>cleanup\<close>: for the inputs
  \<open>[s0, s1]\<close> with only \<open>s1\<close> aborted, the result is aborted with the reason of \<open>s1\<close>,
  but \<open>s0\<close>, which had no listener, now carries \<open>onAbort\<close>.
\<close>

theorem any_short_circuit_leaves_listener:
  "(let s = run [NewController, NewController, ControllerAbort 1 (Str ''already aborted'')] init_state
    in case any [0, 1] s of (c, s') \<Rightarrow>
         \<not> is_aborted s 0 \<and> is_aborted s 1 \<and> listeners_of s 0 = [] \<and>
         is_aborted s' c \<and> reason_of s' c = Str ''already aborted'' \<and>
         listeners_of s' 0 = [(AnyOnAbort c [0, 1], False)])"
  by code_simp

text \<open>
  C10. \<open>follow(parent)\<close> on a parent that is not aborted: when the caller aborts the
  returned controller with a reason \<open>R\<close> of its own before the parent has aborted it, the
  child's signal is aborted with the reason stored for \<open>R\<close> (\<open>R\<close> itself, unless \<open>R\<close>
  is \<open>undefined\<close>), stays so whatever the program does next, and a later abort of the
  parent with another reason \<open>R'\<close> leaves the child's state and reason unchanged.
\<close>

theorem follow_child_abort_is_final:
  assumes "\<not> is_aborted s p" and "follow p s = (c, s1)"
    and "s2 = run ops1 (hold c s1)" and "\<not> is_aborted s2 c"
    and "s3 = abort_controller c R s2"
  shows "is_aborted s3 c \<and> reason_of s3 c = stored_reason R \<and>
         is_aborted (run ops2 s3) c \<and> reason_of (run ops2 s3) c = stored_reason R \<and>
         is_aborted (abort_controller p R' (run ops2 s3)) c \<and>
         reason_of (abort_controller p R' (run ops2 s3)) c = stored_reason R"
proof -
  from follow_fresh [OF assms(2)] have "c < length (sigs (hold c s1))" by simp
  with length_run [of "hold c s1" ops1] assms(3) have "c < length (sigs s2)" by simp
  from abort_controller_aborts [OF this assms(4), of R] assms(5)
  have a: "settled c (stored_reason R) s3" by (simp add: settled_def)
  from settled_run [OF a] have b: "settled c (stored_reason R) (run ops2 s3)" .
  from settled_abort_controller [OF b]
  have "settled c (stored_reason R) (abort_controller p R' (run ops2 s3))" .
  with a b show ?thesis by (simp add: settled_def)
qed

theorem follow_child_abort_is_final_witness:
  "(let s = run [NewController] init_state; s1 = snd (follow 0 s);
        s3 = abort_controller 1 (Str ''child'') (run [] (hold 1 s1));
        s4 = run [ControllerAbort 0 (Str ''parent'')] s3
    in \<not> is_aborted s 0 \<and> follow 0 s = (1, s1) \<and> \<not> is_aborted (run [] (hold 1 s1)) 1 \<and>
       is_aborted s3 1 \<and> reason_of s3 1 = Str ''child'' \<and>
       is_aborted s4 0 \<and> reason_of s4 0 = Str ''parent'' \<and>
       is_aborted s4 1 \<and> reason_of s4 1 = Str ''child'')"
proof -
  define s where "s = run [NewController] init_state"
  define s1 where "s1 = snd (follow 0 s)"
  define s3 where "s3 = abort_controller 1 (Str ''child'') (run [] (hold 1 s1))"
  define s4 where "s4 = run [ControllerAbort 0 (Str ''parent'')] s3"
  have h1: "\<not> is_aborted s 0" unfolding s_def by code_simp
  have h2: "follow 0 s = (1, s1)" unfolding s1_def s_def by code_simp
  have h3: "\<not> is_aborted (run [] (hold 1 s1)) 1" unfolding s1_def s_def by code_simp
  have h4: "is_aborted s4 0 \<and> reason_of s4 0 = Str ''parent''"
    unfolding s4_def s3_def s1_def s_def by code_simp
  from follow_child_abort_is_final [OF h1 h2 refl h3 refl,
      of "Str ''child''" "[ControllerAbort 0 (Str ''parent'')]" "Str ''parent''"]
  have h5: "is_aborted s3 1 \<and> reason_of s3 1 = Str ''child'' \<and>
        is_aborted s4 1 \<and> reason_of s4 1 = Str ''child''"
    by (simp add: s3_def s4_def stored_reason_def)
  show ?thesis
    using h1 h2 h3 h4 h5 unfolding Let_def s4_def s3_def s1_def s_def by blast
qed

text \<open>
  C3. \<open>never()\<close> returns the same signal at every call, constructs it at its first call
  and at no later one (a call that finds the cached signal leaves the state as it is), and
  that signal is not aborted after any sequence of operations of the program.
\<close>

theorem never_is_one_signal_never_aborted:
  assumes "never (run pre init_state) = (n, s1)"
  shows "never (run ops s1) = (n, run ops s1) \<and> \<not> is_aborted (run ops s1) n \<and>
         (neverSignal (run pre init_state) \<noteq> None \<longrightarrow> s1 = run pre init_state)"
proof -
  let ?s = "run pre init_state"
  have "never_ok (step Never ?s)" by (rule never_ok_step [OF never_ok_reachable])
  with assms have ok: "never_ok s1" by simp
  from assms have ns: "neverSignal s1 = Some n"
    by (auto simp: never_eq split: option.splits)
  with ok have "guarded n (AnyOnAbort n []) {} s1" by (simp add: never_ok_def)
  from guarded_iff [OF guarded_run [OF this, of ops]] have "\<not> is_aborted (run ops s1) n" by simp
  moreover from neverSignal_run [OF ns, of ops] have "never (run ops s1) = (n, run ops s1)"
    by (simp add: never_eq)
  moreover from assms have "neverSignal ?s \<noteq> None \<longrightarrow> s1 = ?s"
    by (auto simp: never_eq split: option.splits)
  ultimately show ?thesis by simp
qed

theorem never_is_one_signal_never_aborted_witness:
  "never (run [NewController, Never] init_state)
     = (1, run [NewController, Never] init_state) \<and>
   never (run [Any [0, 1], ControllerAbort 0 (Str ''stop''), Follow 1, Advance 10]
            (run [NewController, Never] init_state))
     = (1, run [Any [0, 1], ControllerAbort 0 (Str ''stop''), Follow 1, Advance 10]
             (run [NewController, Never] init_state)) \<and>
   \<not> is_aborted (run [Any [0, 1], ControllerAbort 0 (Str ''stop''), Follow 1, Advance 10]
                   (run [NewController, Never] init_state)) 1"
proof -
  have h: "never (run [NewController, Never] init_state)
      = (1, run [NewController, Never] init_state)"
    by code_simp
  from never_is_one_signal_never_aborted [OF h,
      of "[Any [0, 1], ControllerAbort 0 (Str ''stop''), Follow 1, Advance 10]"] h
  show ?thesis by simp
qed

text \<open>
  C8. The signal that \<open>any([])\<close> returns is not aborted after any sequence of operations
  that follows.
\<close>

theorem any_empty_never_aborts:
  assumes "any [] (run pre init_state) = (c, s1)"
  shows "\<not> is_aborted (run ops s1) c"
proof -
  have "guarded c (AnyOnAbort c []) (set []) s1"
    by (rule guarded_any [OF wf_reachable _ assms]) simp
  from guarded_iff [OF guarded_run [OF this, of ops]] show ?thesis by simp
qed

theorem any_empty_never_aborts_witness:
  "any [] (run [NewController] init_state) = (1, snd (any [] (run [NewController] init_state))) \<and>
   \<not> is_aborted (run [ControllerAbort 0 (Str ''stop''), Any [0, 1], Follow 1, Advance 10]
                   (snd (any [] (run [NewController] init_state)))) 1"
proof -
  have h: "any [] (run [NewController] init_state)
      = (1, snd (any [] (run [NewController] init_state)))"
    by code_simp
  from any_empty_never_aborts [OF h,
      of "[ControllerAbort 0 (Str ''stop''), Any [0, 1], Follow 1, Advance 10]"] h
  show ?thesis by simp
qed

text \<open>
  C2. \<open>any(signals)\<close> on signals none of which is aborted: the combined signal is not
  aborted at return; after any sequence of operations it is aborted exactly if one of the
  inputs is; if exactly one input is aborted, the combined signal has that input's
  reason; and once it is aborted, the shared listener is registered on none of the inputs
  and no further operation (the abort of a second input with another reason included)
  changes its state or its reason.
\<close>

theorem any_first_abort_wins:
  assumes "\<forall>x \<in> set xs. x < length (sigs (run pre init_state)) \<and> \<not> is_aborted (run pre init_state) x"
    and "any xs (run pre init_state) = (c, s1)"
  shows "\<not> is_aborted s1 c \<and>
    (is_aborted (run ops s1) c \<longleftrightarrow> (\<exists>x \<in> set xs. is_aborted (run ops s1) x)) \<and>
    (\<forall>x \<in> set xs. is_aborted (run ops s1) x \<and> (\<forall>y \<in> set xs. is_aborted (run ops s1) y \<longrightarrow> y = x)
        \<longrightarrow> reason_of (run ops s1) c = reason_of (run ops s1) x) \<and>
    (is_aborted (run ops s1) c \<longrightarrow>
       (\<forall>x \<in> set xs. AnyOnAbort c xs \<notin> fst ` set (listeners_of (run ops s1) x)) \<and>
       is_aborted (run ops' (run ops s1)) c \<and>
       reason_of (run ops' (run ops s1)) c = reason_of (run ops s1) c)"
proof -
  let ?l = "AnyOnAbort c xs" and ?s2 = "run ops s1"
  have g: "guarded c ?l (set xs) s1"
    by (rule guarded_any [OF wf_reachable assms])
  from guarded_run [OF g, of ops] have g2: "guarded c ?l (set xs) ?s2" .
  then have li: "linked c ?l (set xs) ?s2 []" by (simp add: guarded_def keeps_def)
  have 1: "\<not> is_aborted s1 c"
  proof -
    let ?s = "run pre init_state"
    from assms(1) have "\<forall>x \<in> set xs. \<not> is_aborted (alloc ?s) x" by simp
    from any_loop_unaborted [OF this, of "length (sigs ?s)" "AnyOnAbort (length (sigs ?s)) xs"] assms(2)
    have "c = length (sigs ?s)"
      and "s1 = fold (\<lambda>x. add_listener x (AnyOnAbort (length (sigs ?s)) xs) False) xs (alloc ?s)"
      by (auto simp: any_eq)
    then show ?thesis by (simp add: not_aborted_beyond)
  qed
  note 2 = guarded_iff [OF g2]
  have 3: "reason_of ?s2 c = reason_of ?s2 x"
    if "x \<in> set xs" "is_aborted ?s2 x" "\<forall>y \<in> set xs. is_aborted ?s2 y \<longrightarrow> y = x" for x
  proof -
    from that 2 have "is_aborted ?s2 c" by blast
    from linked_heapD(6) [OF li this] obtain y
      where y: "y \<in> set xs" "is_aborted ?s2 y" "reason_of ?s2 c = reason_of ?s2 y" by blast
    with that(3) have "y = x" by simp
    with y(3) show ?thesis by simp
  qed
  have 4: "?l \<notin> fst ` set (listeners_of ?s2 x)" if "is_aborted ?s2 c" "x \<in> set xs" for x
    using linked_heapD(7) [OF li that(1) refl that(2)] .
  have 5: "is_aborted (run ops' ?s2) c \<and> reason_of (run ops' ?s2) c = reason_of ?s2 c"
    if "is_aborted ?s2 c"
    using settled_run [of c "reason_of ?s2 c" ?s2 ops'] that by (simp add: settled_def)
  from 1 2 3 4 5 show ?thesis by blast
qed

theorem any_first_abort_wins_witness:
  "length (sigs (run [NewController, NewController] init_state)) = 2 \<and>
   \<not> is_aborted (run [NewController, NewController] init_state) 0 \<and>
   \<not> is_aborted (run [NewController, NewController] init_state) 1 \<and>
   (let s1 = snd (any [0, 1] (run [NewController, NewController] init_state));
        s2 = run [ControllerAbort 0 (Str ''first'')] s1;
        s3 = run [ControllerAbort 1 (Str ''second'')] s2
    in any [0, 1] (run [NewController, NewController] init_state) = (2, s1) \<and>
       \<not> is_aborted s1 2 \<and>
       is_aborted s2 0 \<and> \<not> is_aborted s2 1 \<and> reason_of s2 0 = Str ''first'' \<and>
       is_aborted s2 2 \<and> reason_of s2 2 = Str ''first'' \<and>
       AnyOnAbort 2 [0, 1] \<notin> fst ` set (listeners_of s2 0) \<and>
       AnyOnAbort 2 [0, 1] \<notin> fst ` set (listeners_of s2 1) \<and>
       is_aborted s3 1 \<and> reason_of s3 1 = Str ''second'' \<and>
       is_aborted s3 2 \<and> reason_of s3 2 = Str ''first'')"
proof -
  define s where "s = run [NewController, NewController] init_state"
  define s1 where "s1 = snd (any [0, 1] s)"
  define s2 where "s2 = run [ControllerAbort 0 (Str ''first'')] s1"
  define s3 where "s3 = run [ControllerAbort 1 (Str ''second'')] s2"
  have h1: "\<forall>x \<in> set [0, 1]. x < length (sigs s) \<and> \<not> is_aborted s x"
    unfolding s_def by code_simp
  have h2: "any [0, 1] s = (2, s1)" unfolding s1_def s_def by code_simp
  have e: "is_aborted s2 0 \<and> \<not> is_aborted s2 1 \<and> reason_of s2 0 = Str ''first'' \<and>
      is_aborted s3 1 \<and> reason_of s3 1 = Str ''second''"
    unfolding s3_def s2_def s1_def s_def by code_simp
  from e have one: "\<forall>y \<in> set [0, 1]. is_aborted s2 y \<longrightarrow> y = 0" by auto
  note t = any_first_abort_wins [of "[0, 1]" "[NewController, NewController]" 2 s1
      "[ControllerAbort 0 (Str ''first'')]" "[ControllerAbort 1 (Str ''second'')]",
      folded s_def, OF h1 h2, folded s2_def, folded s3_def]
  from t e have a: "\<not> is_aborted s1 2" and b: "is_aborted s2 2" by auto
  from t e one have c: "reason_of s2 2 = Str ''first''" by auto
  from t b have d: "AnyOnAbort 2 [0, 1] \<notin> fst ` set (listeners_of s2 0)"
    "AnyOnAbort 2 [0, 1] \<notin> fst ` set (listeners_of s2 1)"
    "is_aborted s3 2" "reason_of s3 2 = reason_of s2 2"
    by auto
  have h0: "length (sigs s) = 2 \<and> \<not> is_aborted s 0 \<and> \<not> is_aborted s 1"
    unfolding s_def by code_simp
  show ?thesis
    using h0 h2 e a b c d
    unfolding Let_def s3_def s2_def s1_def s_def by simp
qed

text \<open>
  C4. \<open>follow(parent)\<close>: if the parent is aborted at the call, the signal of the
  returned controller is aborted with the parent's reason when the call returns.
  Otherwise it is not aborted at return, and, as long as the caller does not abort the
  returned controller itself, after any sequence of operations it is aborted exactly if
  the parent is, with the parent's reason.
\<close>

theorem follow_mirrors_parent:
  assumes "p < length (sigs (run pre init_state))"
    and "follow p (run pre init_state) = (c, s1)"
  shows "(is_aborted (run pre init_state) p \<longrightarrow>
            is_aborted s1 c \<and> reason_of s1 c = reason_of (run pre init_state) p) \<and>
         (\<not> is_aborted (run pre init_state) p \<longrightarrow> (\<forall>r. ControllerAbort c r \<notin> set ops) \<longrightarrow>
            \<not> is_aborted s1 c \<and>
            (is_aborted (run ops (hold c s1)) c \<longleftrightarrow> is_aborted (run ops (hold c s1)) p) \<and>
            (is_aborted (run ops (hold c s1)) c \<longrightarrow>
               reason_of (run ops (hold c s1)) c = reason_of (run ops (hold c s1)) p))"
proof (intro conjI impI)
  let ?s = "run pre init_state"
  assume a: "is_aborted ?s p"
  from assms(2) a have c: "c = length (sigs ?s)"
    and s1: "s1 = abort_controller c (reason_of ?s p) (alloc ?s)"
    by (auto simp: follow_eq)
  have "c < length (sigs (alloc ?s))" "\<not> is_aborted (alloc ?s) c"
    unfolding c by (simp_all add: not_aborted_beyond)
  from abort_controller_aborts [OF this, of "reason_of ?s p"] reachable_defined [OF a]
  show "is_aborted s1 c" "reason_of s1 c = reason_of ?s p"
    unfolding s1 by simp_all
next
  let ?s = "run pre init_state" and ?s2 = "run ops (hold c s1)"
  assume na: "\<not> is_aborted ?s p" and o: "\<forall>r. ControllerAbort c r \<notin> set ops"
  note k = keeps_follow [OF wf_reachable assms(1) na assms(2)]
  from k(1) have li1: "linked c (FollowOnAbort c p) {p} s1 []" by (simp add: keeps_def)
  from loose_run [OF k o] have "linked c (FollowOnAbort c p) {p} ?s2 []"
    by (simp add: keeps_def)
  note d = linked_heapD(5,6) [OF this]
  from linked_heapD(5) [OF li1] linked_heapD(6) [OF li1] na assms(2)
  show "\<not> is_aborted s1 c" by (auto simp: follow_eq not_aborted_beyond)
  from d show "is_aborted ?s2 c \<longleftrightarrow> is_aborted ?s2 p" by blast
  show "reason_of ?s2 c = reason_of ?s2 p" if "is_aborted ?s2 c"
    using d(2) [OF that] by simp
qed

theorem follow_mirrors_parent_witness:
  "(let s = run [NewController, NewController, ControllerAbort 0 (Str ''gone'')] init_state;
        a = snd (follow 0 s); b = snd (follow 1 s);
        b1 = run [Timeout 5, Advance 5] (hold 2 b);
        b2 = run [Timeout 5, Advance 5, ControllerAbort 1 (Str ''Parent Aborted'')] (hold 2 b)
    in length (sigs s) = 2 \<and> is_aborted s 0 \<and> \<not> is_aborted s 1 \<and>
       follow 0 s = (2, a) \<and> is_aborted a 2 \<and> reason_of a 2 = Str ''gone'' \<and>
       follow 1 s = (2, b) \<and> \<not> is_aborted b 2 \<and>
       \<not> is_aborted b1 1 \<and> \<not> is_aborted b1 2 \<and>
       is_aborted b2 1 \<and> is_aborted b2 2 \<and> reason_of b2 1 = Str ''Parent Aborted'' \<and>
       reason_of b2 2 = Str ''Parent Aborted'')"
proof -
  define s where "s = run [NewController, NewController, ControllerAbort 0 (Str ''gone'')] init_state"
  define a where "a = snd (follow 0 s)"
  define b where "b = snd (follow 1 s)"
  have h: "length (sigs s) = 2 \<and> is_aborted s 0 \<and> \<not> is_aborted s 1 \<and> reason_of s 0 = Str ''gone''"
    unfolding s_def by code_simp
  have fa: "follow 0 s = (2, a)" unfolding a_def s_def by code_simp
  have fb: "follow 1 s = (2, b)" unfolding b_def s_def by code_simp
  have e: "\<not> is_aborted (run [Timeout 5, Advance 5] (hold 2 b)) 1 \<and>
      is_aborted (run [Timeout 5, Advance 5, ControllerAbort 1 (Str ''Parent Aborted'')] (hold 2 b)) 1 \<and>
      reason_of (run [Timeout 5, Advance 5, ControllerAbort 1 (Str ''Parent Aborted'')] (hold 2 b)) 1
        = Str ''Parent Aborted''"
    unfolding b_def s_def by code_simp
  have p0: "0 < length (sigs s)" and p1: "1 < length (sigs s)" using h by simp_all
  note ta = follow_mirrors_parent [of 0 "[NewController, NewController, ControllerAbort 0 (Str ''gone'')]"
      2 a "[]", folded s_def, OF p0 fa]
  note tb1 = follow_mirrors_parent [of 1 "[NewController, NewController, ControllerAbort 0 (Str ''gone'')]"
      2 b "[Timeout 5, Advance 5]", folded s_def, OF p1 fb]
  note tb2 = follow_mirrors_parent [of 1 "[NewController, NewController, ControllerAbort 0 (Str ''gone'')]"
      2 b "[Timeout 5, Advance 5, ControllerAbort 1 (Str ''Parent Aborted'')]", folded s_def, OF p1 fb]
  from ta h have 1: "is_aborted a 2 \<and> reason_of a 2 = Str ''gone''" by simp
  from tb1 h e have 2: "\<not> is_aborted b 2 \<and> \<not> is_aborted (run [Timeout 5, Advance 5] (hold 2 b)) 2"
    by simp
  from tb2 h e have 3:
    "is_aborted (run [Timeout 5, Advance 5, ControllerAbort 1 (Str ''Parent Aborted'')] (hold 2 b)) 2 \<and>
     reason_of (run [Timeout 5, Advance 5, ControllerAbort 1 (Str ''Parent Aborted'')] (hold 2 b)) 2
       = Str ''Parent Aborted''"
    by simp
  show ?thesis
    using h fa fb e 1 2 3
    unfolding Let_def a_def b_def s_def by simp
qed

text \<open>
  C7. \<open>fromEvent(target, eventName)\<close>: the call registers its listener on the target
  for that event as a one-shot listener (\<open>once: true\<close>), and the returned signal is not
  aborted at return, nor after operations that do not fire that event on that target,
  during which the listener stays registered. The first time the event fires, the signal
  is aborted with the event object as its reason, and the target, which honours \<open>once\<close>,
  holds no listener of this signal any more, one-shot or not. Nothing that follows, a
  second firing of the event included, changes the signal's state or its reason.
\<close>

theorem fromEvent_first_event_aborts:
  assumes "fromEvent t n (run pre init_state) = (c, s1)"
    and "\<forall>ev. Dispatch t n ev \<notin> set ops"
    and "s2 = dispatch t n (Obj e) (run ops s1)"
  shows "(t, n, c, True) \<in> set (tlisteners s1) \<and> \<not> is_aborted s1 c \<and>
         (t, n, c, True) \<in> set (tlisteners (run ops s1)) \<and> \<not> is_aborted (run ops s1) c \<and>
         is_aborted s2 c \<and> reason_of s2 c = Obj e \<and>
         (\<forall>b. (t, n, c, b) \<notin> set (tlisteners s2)) \<and>
         is_aborted (run ops' s2) c \<and> reason_of (run ops' s2) c = Obj e"
proof -
  have l1: "listening c (t, n, c, True) s1"
    by (rule listening_fromEvent [OF wf_reachable assms(1)])
  from listening_run [OF l1 assms(2)] have l2: "listening c (t, n, c, True) (run ops s1)" .
  note r1 = listeningD(3) [OF l1] and r2 = listeningD(3) [OF l2]
  from l1 lone_unaborted [of c s1] have 1: "\<not> is_aborted s1 c" by (simp add: listening_def)
  from l2 lone_unaborted [of c "run ops s1"] have 2: "\<not> is_aborted (run ops s1) c"
    by (simp add: listening_def)
  from dispatch_fires [OF l2, of "Obj e"] assms(3)
  have 3: "settled c (Obj e) s2" and 4: "(t, n, c, True) \<notin> set (tlisteners s2)" by simp_all
  have 5: "(t, n, c, b) \<notin> set (tlisteners s2)" for b
  proof
    assume "(t, n, c, b) \<in> set (tlisteners s2)"
    with env_dispatch [of t n "run ops s1" "Obj e"] assms(3)
    have m: "(t, n, c, b) \<in> set (tlisteners (run ops s1))" unfolding tl_kept_def by blast
    from listeningD(4) [OF l2, rule_format, OF m] have "b = True" by simp
    with 4 \<open>(t, n, c, b) \<in> set (tlisteners s2)\<close> show False by simp
  qed
  from settled_run [OF 3, of ops'] have 6: "settled c (Obj e) (run ops' s2)" .
  from 3 6 have 7: "is_aborted s2 c" "reason_of s2 c = Obj e"
    "is_aborted (run ops' s2) c" "reason_of (run ops' s2) c = Obj e"
    by (simp_all add: settled_def)
  from r1 1 r2 2 7 5 show ?thesis by (intro conjI allI)
qed

theorem fromEvent_first_event_aborts_witness:
  "(let s1 = snd (fromEvent 7 ''testEvent'' (run [NewController] init_state));
        s2 = dispatch 7 ''testEvent'' (Obj 1) (run [Dispatch 7 ''other'' (Obj 0), Advance 3] s1);
        s3 = run [Dispatch 7 ''testEvent'' (Obj 2)] s2
    in fromEvent 7 ''testEvent'' (run [NewController] init_state) = (1, s1) \<and>
       (7, ''testEvent'', 1, True) \<in> set (tlisteners s1) \<and> \<not> is_aborted s1 1 \<and>
       (7, ''testEvent'', 1, True)
         \<in> set (tlisteners (run [Dispatch 7 ''other'' (Obj 0), Advance 3] s1)) \<and>
       \<not> is_aborted (run [Dispatch 7 ''other'' (Obj 0), Advance 3] s1) 1 \<and>
       is_aborted s2 1 \<and> reason_of s2 1 = Obj 1 \<and>
       (7, ''testEvent'', 1, True) \<notin> set (tlisteners s2) \<and>
       (7, ''testEvent'', 1, False) \<notin> set (tlisteners s2) \<and>
       is_aborted s3 1 \<and> reason_of s3 1 = Obj 1)"
proof -
  define s1 where "s1 = snd (fromEvent 7 ''testEvent'' (run [NewController] init_state))"
  have h1: "fromEvent 7 ''testEvent'' (run [NewController] init_state) = (1, s1)"
    unfolding s1_def by code_simp
  have h2: "\<forall>ev. Dispatch 7 ''testEvent'' ev \<notin> set [Dispatch 7 ''other'' (Obj 0), Advance 3]"
    by simp
  from fromEvent_first_event_aborts [OF h1 h2 refl, of 1 "[Dispatch 7 ''testEvent'' (Obj 2)]"] h1
  show ?thesis unfolding Let_def s1_def by simp
qed

text \<open>
  C5. \<open>manageLifecycle(target, signal, onAbort)\<close>: if the signal is aborted at the
  call, \<open>onAbort\<close> is called with the signal's reason before the call returns, and
  nothing else changes: no listener is registered on the signal and nothing is registered
  for the target. Otherwise \<open>onAbort\<close> is not called at the call, and in every later
  state it has been called once, with the signal's reason, if the signal is aborted, and
  not at all if it is not. The calls are told apart by the callback: \<open>onAbort\<close> is a
  function that no other registration uses. The finalization of the target removes the
  listener, which is the subject of the weak association; the statement is about a
  target whose finalization callback has not run.
\<close>

theorem manageLifecycle_calls_once:
  assumes "sg < length (sigs (run pre init_state))"
  shows "(is_aborted (run pre init_state) sg \<longrightarrow>
            manageLifecycle tg sg cb (run pre init_state) =
              (run pre init_state)\<lparr>calls := calls (run pre init_state) @
                 [(cb, reason_of (run pre init_state) sg)]\<rparr>) \<and>
         (\<not> is_aborted (run pre init_state) sg \<longrightarrow>
          cb \<notin> set (registered_callbacks (run pre init_state)) \<longrightarrow>
          (\<forall>t x. ManageLifecycle t x cb \<notin> set ops) \<longrightarrow> Collect tg \<notin> set ops \<longrightarrow>
            log_of cb (manageLifecycle tg sg cb (run pre init_state)) =
              log_of cb (run pre init_state) \<and>
            log_of cb (run ops (manageLifecycle tg sg cb (run pre init_state))) =
              log_of cb (run pre init_state) @
              (if is_aborted (run ops (manageLifecycle tg sg cb (run pre init_state))) sg
               then [(cb, reason_of (run ops (manageLifecycle tg sg cb (run pre init_state))) sg)]
               else []))"
proof (intro conjI impI)
  assume "is_aborted (run pre init_state) sg"
  then show "manageLifecycle tg sg cb (run pre init_state) =
      (run pre init_state)\<lparr>calls := calls (run pre init_state) @
         [(cb, reason_of (run pre init_state) sg)]\<rparr>"
    by (simp add: manageLifecycle_eq)
next
  let ?s = "run pre init_state"
  let ?s1 = "manageLifecycle tg sg cb ?s"
  assume na: "\<not> is_aborted ?s sg" and fr: "cb \<notin> set (registered_callbacks ?s)"
    and o1: "\<forall>t x. ManageLifecycle t x cb \<notin> set ops" and o2: "Collect tg \<notin> set ops"
  note t = tended_manageLifecycle [OF wf_reachable assms na fr, of tg]
  from tended_log [OF t] na show "log_of cb ?s1 = log_of cb ?s"
    by (simp add: manageLifecycle_eq)
  have "tended cb (LifecycleListener (nextSymbol ?s) cb sg) sg tg (log_of cb ?s) (run ops ?s1)"
  proof (rule tended_run [OF t])
    fix op assume "op \<in> set ops"
    with o1 o2 show "permits cb tg op" unfolding permits_iff by blast
  qed
  from tended_log [OF this]
  show "log_of cb (run ops ?s1) = log_of cb ?s @
      (if is_aborted (run ops ?s1) sg then [(cb, reason_of (run ops ?s1) sg)] else [])" .
qed

theorem manageLifecycle_calls_once_witness:
  "(let s = run [NewController, NewController, ControllerAbort 1 (Str ''gone'')] init_state;
        a = manageLifecycle 7 1 3 s; b = manageLifecycle 7 0 3 s;
        b1 = run [Timeout 5, Collect 8] b;
        b2 = run [Timeout 5, Collect 8, ControllerAbort 0 (Str ''Test Abort''), Advance 5] b
    in length (sigs s) = 2 \<and> is_aborted s 1 \<and> \<not> is_aborted s 0 \<and>
       registered_callbacks s = [] \<and> calls s = [] \<and>
       a = s\<lparr>calls := [(3, Str ''gone'')]\<rparr> \<and>
       log_of 3 b = [] \<and> \<not> is_aborted b1 0 \<and> log_of 3 b1 = [] \<and>
       is_aborted b2 0 \<and> log_of 3 b2 = [(3, Str ''Test Abort'')])"
proof -
  define s where "s = run [NewController, NewController, ControllerAbort 1 (Str ''gone'')] init_state"
  define b where "b = manageLifecycle 7 0 3 s"
  have h: "length (sigs s) = 2 \<and> is_aborted s 1 \<and> \<not> is_aborted s 0 \<and>
      registered_callbacks s = [] \<and> calls s = [] \<and> reason_of s 1 = Str ''gone'' \<and>
      log_of 3 s = []"
    unfolding s_def by code_simp
  have e: "\<not> is_aborted (run [Timeout 5, Collect 8] b) 0 \<and>
      is_aborted (run [Timeout 5, Collect 8, ControllerAbort 0 (Str ''Test Abort''), Advance 5] b) 0 \<and>
      reason_of (run [Timeout 5, Collect 8, ControllerAbort 0 (Str ''Test Abort''), Advance 5] b) 0
        = Str ''Test Abort''"
    unfolding b_def s_def by code_simp
  have p0: "0 < length (sigs s)" and p1: "1 < length (sigs s)" using h by simp_all
  note ta = manageLifecycle_calls_once
      [of 1 "[NewController, NewController, ControllerAbort 1 (Str ''gone'')]" 7 3 "[]",
       folded s_def, OF p1]
  note tb1 = manageLifecycle_calls_once
      [of 0 "[NewController, NewController, ControllerAbort 1 (Str ''gone'')]" 7 3 "[Timeout 5, Collect 8]",
       folded s_def, OF p0, folded b_def]
  note tb2 = manageLifecycle_calls_once
      [of 0 "[NewController, NewController, ControllerAbort 1 (Str ''gone'')]" 7 3
          "[Timeout 5, Collect 8, ControllerAbort 0 (Str ''Test Abort''), Advance 5]",
       folded s_def, OF p0, folded b_def]
  from ta h have 1: "manageLifecycle 7 1 3 s = s\<lparr>calls := [(3, Str ''gone'')]\<rparr>" by simp
  from tb1 h e have 2: "log_of 3 b = [] \<and> log_of 3 (run [Timeout 5, Collect 8] b) = []"
    by simp
  from tb2 h e have 3:
    "log_of 3 (run [Timeout 5, Collect 8, ControllerAbort 0 (Str ''Test Abort''), Advance 5] b)
       = [(3, Str ''Test Abort'')]"
    by simp
  show ?thesis
    using h e 1 2 3
    unfolding Let_def b_def s_def by simp
qed

text \<open>
  C6 is stated for every duration \<open>d \<ge> 0\<close>. For \<open>d = 2147483648\<close> the timer is given a
  delay that it replaces by \<open>1\<close>: the signal, not aborted at return, is aborted once the
  clock has advanced by one millisecond, long before \<open>d\<close> milliseconds have passed.
\<close>

theorem timeout_long_delay_aborts_early:
  "unat (2147483648 :: safe_integer) = 2147483648 \<and>
   \<not> is_aborted (snd (timeout 2147483648 init_state)) 0 \<and>
   now (advance 1 (snd (timeout 2147483648 init_state))) = 1 \<and>
   is_aborted (advance 1 (snd (timeout 2147483648 init_state))) 0"
proof -
  let ?s1 = "snd (timeout 2147483648 init_state)"
  have f: "timeout 2147483648 init_state = (0, ?s1)"
    by (simp add: timeout_eq init_state_def)
  have d: "timer_delay 2147483648 = 1" by (simp add: timer_delay_def)
  have n: "now init_state = 0" by (simp add: init_state_def)
  from ticking_timeout [OF wf_init f] d n
  have t: "ticking 0 (1, 0, 2147483648) ?s1" and n1: "now ?s1 = 0" by simp_all
  from tickingD(1) [OF t] lone_unaborted have 1: "\<not> is_aborted ?s1 0" by blast
  from advance_fires [OF t, of 1] n1 have 2: "is_aborted (advance 1 ?s1) 0"
    by (simp add: settled_def)
  from n1 have 3: "now (advance 1 ?s1) = 1" by (simp add: now_advance)
  have 4: "unat (2147483648 :: safe_integer) = 2147483648" by simp
  from 1 2 3 4 show ?thesis by simp
qed

text \<open>
  C6. \<open>timeout(d)\<close>, for a duration \<open>d\<close> of whole milliseconds with
  \<open>0 \<le> d \<le> 2147483647\<close>: the returned signal is not aborted at return; in every later
  state it is aborted exactly if the clock has advanced by \<open>d\<close> milliseconds or more
  since the call (by one millisecond or more when \<open>d = 0\<close>, the least delay of the
  timer); and when it is aborted its reason is a \<open>TimeoutError\<close>, with that name, whose
  message is \<open>Signal timed out after \<close>, the decimal numeral of \<open>d\<close>, and \<open>ms\<close>.
\<close>

theorem timeout_aborts_after_delay:
  assumes "timeout d (run pre init_state) = (c, s1)" and "d \<le> 2147483647"
  shows "\<not> is_aborted s1 c \<and>
         (is_aborted (run ops s1) c \<longleftrightarrow> now s1 + max 1 (unat d) \<le> now (run ops s1)) \<and>
         (is_aborted (run ops s1) c \<longrightarrow>
            reason_of (run ops s1) c =
              ErrorObj ''TimeoutError'' (''Signal timed out after '' @ number_toString d @ ''ms'')) \<and>
         decimal_value (number_toString d) = Some (unat d)"
proof -
  let ?e0 = "(now s1 + max 1 (unat d), c, d)" and ?s2 = "run ops s1"
  from ticking_timeout [OF wf_reachable assms(1)] timer_delay_range [OF assms(2)]
  have t1: "ticking c ?e0 s1" by simp
  from tickingD(1) [OF t1] lone_unaborted have 1: "\<not> is_aborted s1 c" by blast
  from t1 have "timed c ?e0 s1" by (simp add: timed_def)
  from timed_run [OF this, of ops] have t2: "timed c ?e0 ?s2" by simp
  note a = timed_aborted [OF t2]
  from a(1) have 2: "is_aborted ?s2 c \<longleftrightarrow> now s1 + max 1 (unat d) \<le> now ?s2" by simp
  have 3: "reason_of ?s2 c =
      ErrorObj ''TimeoutError'' (''Signal timed out after '' @ number_toString d @ ''ms'')"
    if "is_aborted ?s2 c"
    using a(2) [OF that] by (simp add: timeout_reason_def TimeoutError_def)
  have 4: "decimal_value (number_toString d) = Some (unat d)"
    by (simp add: number_toString_def decimal_value_digits)
  from 1 2 3 4 show ?thesis by blast
qed

theorem timeout_aborts_after_delay_witness:
  "(let s1 = snd (timeout 1500 (run [NewController] init_state));
        s2 = run [Advance 1000, ControllerAbort 0 (Str ''x''), Advance 499] s1;
        s3 = run [Advance 1000, ControllerAbort 0 (Str ''x''), Advance 499, Advance 1] s1;
        z1 = snd (timeout 0 (run [NewController] init_state))
    in timeout 1500 (run [NewController] init_state) = (1, s1) \<and> \<not> is_aborted s1 1 \<and>
       now s1 = 0 \<and> now s2 = 1499 \<and> \<not> is_aborted s2 1 \<and>
       now s3 = 1500 \<and> is_aborted s3 1 \<and>
       reason_of s3 1 = ErrorObj ''TimeoutError'' ''Signal timed out after 1500ms'' \<and>
       number_toString 1500 = ''1500'' \<and> decimal_value ''1500'' = Some 1500 \<and>
       timeout 0 (run [NewController] init_state) = (1, z1) \<and> \<not> is_aborted z1 1 \<and>
       now z1 = 0 \<and> now (run [Advance 0] z1) = 0 \<and> \<not> is_aborted (run [Advance 0] z1) 1 \<and>
       now (run [Advance 1] z1) = 1 \<and> is_aborted (run [Advance 1] z1) 1 \<and>
       reason_of (run [Advance 1] z1) 1 = ErrorObj ''TimeoutError'' ''Signal timed out after 0ms'')"
proof -
  define s1 where "s1 = snd (timeout 1500 (run [NewController] init_state))"
  define s2 where "s2 = run [Advance 1000, ControllerAbort 0 (Str ''x''), Advance 499] s1"
  define s3 where "s3 = run [Advance 1000, ControllerAbort 0 (Str ''x''), Advance 499, Advance 1] s1"
  define z1 where "z1 = snd (timeout 0 (run [NewController] init_state))"
  have h1: "timeout 1500 (run [NewController] init_state) = (1, s1)"
    unfolding s1_def by code_simp
  have h2: "now s1 = 0 \<and> now s2 = 1499 \<and> now s3 = 1500" unfolding s3_def s2_def s1_def by code_simp
  have h3: "number_toString 1500 = ''1500''" by code_simp
  have h4: "(1500 :: safe_integer) \<le> 2147483647" by simp
  have h5: "unat (1500 :: safe_integer) = 1500" by simp
  have k1: "timeout 0 (run [NewController] init_state) = (1, z1)"
    unfolding z1_def by code_simp
  have k2: "now z1 = 0 \<and> now (run [Advance 0] z1) = 0 \<and> now (run [Advance 1] z1) = 1"
    unfolding z1_def by code_simp
  have k3: "number_toString 0 = ''0''" by code_simp
  have k4: "(0 :: safe_integer) \<le> 2147483647" by simp
  note ta = timeout_aborts_after_delay [OF h1 h4,
      of "[Advance 1000, ControllerAbort 0 (Str ''x''), Advance 499]", folded s2_def]
  note tb = timeout_aborts_after_delay [OF h1 h4,
      of "[Advance 1000, ControllerAbort 0 (Str ''x''), Advance 499, Advance 1]", folded s3_def]
  note tc = timeout_aborts_after_delay [OF k1 k4, of "[Advance 0]"]
  note td = timeout_aborts_after_delay [OF k1 k4, of "[Advance 1]"]
  from ta h2 h5 have a: "\<not> is_aborted s1 1 \<and> \<not> is_aborted s2 1" by simp
  from tb h2 h3 h5 have b: "is_aborted s3 1 \<and>
      reason_of s3 1 = ErrorObj ''TimeoutError'' ''Signal timed out after 1500ms'' \<and>
      decimal_value ''1500'' = Some 1500"
    by simp
  from tc k2 have c: "\<not> is_aborted z1 1 \<and> \<not> is_aborted (run [Advance 0] z1) 1" by simp
  from td k2 k3 have d: "is_aborted (run [Advance 1] z1) 1 \<and>
      reason_of (run [Advance 1] z1) 1 = ErrorObj ''TimeoutError'' ''Signal timed out after 0ms''"
    by simp
  show ?thesis
    using h1 h2 h3 a b k1 k2 c d
    unfolding Let_def s3_def s2_def s1_def z1_def by simp
qed

end
